theory Spec2Isabelle
  imports Complex_Main "HOL-Library.Word" "HOL-Library.AList" "HOL-Library.Code_Target_Numeral"
begin

section \<open>The k-mer context model (kmer\_model.hpp, kmer\_model.cpp)\<close>

text \<open>
  \<^verbatim>\<open>std::unordered_map<std::string, std::array<size_t,4>> table_\<close>.
  A count is a \<open>size_t\<close>, here a 64-bit word, so that \<open>++\<close> wraps as in the code.
  The array of four counts is a datatype with one field per slot; \<open>slot\<close> reads and
  \<open>set_slot\<close> writes a slot by its \<open>int\<close> index, as \<open>arr[i]\<close> does. The code only
  ever indexes with 0..3 (every access is guarded by \<open>idx >= 0\<close> or by the loop bound).
  The hash table is an association list with distinct keys; the order of the list is the
  iteration order of the table, which the C++ standard leaves open.
\<close>

type_synonym size_t = "64 word"

datatype counts = Counts (c0: size_t) (c1: size_t) (c2: size_t) (c3: size_t)

definition zero_counts :: counts where
  "zero_counts = Counts 0 0 0 0"

definition slot :: "counts \<Rightarrow> int \<Rightarrow> size_t" where
  "slot arr i = (if i = 0 then c0 arr else if i = 1 then c1 arr
                 else if i = 2 then c2 arr else c3 arr)"

definition set_slot :: "counts \<Rightarrow> int \<Rightarrow> size_t \<Rightarrow> counts" where
  "set_slot arr i v =
     (if i = 0 then Counts v (c1 arr) (c2 arr) (c3 arr)
      else if i = 1 then Counts (c0 arr) v (c2 arr) (c3 arr)
      else if i = 2 then Counts (c0 arr) (c1 arr) v (c3 arr)
      else Counts (c0 arr) (c1 arr) (c2 arr) v)"

type_synonym table = "(string \<times> counts) list"

text \<open>\<open>table_.find(ctx)\<close>: the array stored under a key, if any.\<close>

definition find_ctx :: "table \<Rightarrow> string \<Rightarrow> counts option" where
  "find_ctx t ctx = map_of t ctx"

text \<open>
  \<open>table_[ctx]\<close> as an lvalue: \<open>operator[]\<close> inserts a value-initialised (all zero)
  array when the key is absent. \<open>entry\<close> is the array it then refers to, \<open>store\<close>
  writes the array back under the key (in place when the key exists).
\<close>

definition entry :: "table \<Rightarrow> string \<Rightarrow> counts" where
  "entry t ctx = (case find_ctx t ctx of None \<Rightarrow> zero_counts | Some arr \<Rightarrow> arr)"

definition store :: "table \<Rightarrow> string \<Rightarrow> counts \<Rightarrow> table" where
  "store t ctx arr = AList.update ctx arr t"

text \<open>The count of a (context, base index) pair; an absent context counts as zero.\<close>

definition count_of :: "table \<Rightarrow> string \<Rightarrow> int \<Rightarrow> size_t" where
  "count_of t ctx i = slot (entry t ctx) i"

definition index :: "char \<Rightarrow> int" where
  "index base =
     (if base = CHR ''A'' then 0
      else if base = CHR ''C'' then 1
      else if base = CHR ''G'' then 2
      else if base = CHR ''T'' then 3
      else - 1)"

definition base_from_index :: "int \<Rightarrow> char" where
  "base_from_index idx =
     (if idx \<ge> 0 \<and> idx < 4 then ''ACGT'' ! nat idx else CHR ''N'')"

definition update :: "table \<Rightarrow> string \<Rightarrow> char \<Rightarrow> table" where
  "update t ctx next =
     (let idx = index next in
      if idx \<ge> 0 then store t ctx (set_slot (entry t ctx) idx (slot (entry t ctx) idx + 1))
      else t)"

text \<open>
  The scan of \<open>predict\<close>: \<open>best\<close> and \<open>idx\<close> are the loop's two variables, \<open>i\<close>
  its counter. Comparison is unsigned, as on \<open>size_t\<close>.
\<close>

function predict_loop :: "counts \<Rightarrow> int \<Rightarrow> size_t \<Rightarrow> int \<Rightarrow> int" where
  "predict_loop arr i best idx =
     (if i < 4 then
        (if slot arr i > best then predict_loop arr (i + 1) (slot arr i) i
         else predict_loop arr (i + 1) best idx)
      else idx)"
  by pat_completeness auto
termination
  by (relation "measure (\<lambda>(arr, i, best, idx). nat (4 - i))") auto

definition predict :: "table \<Rightarrow> string \<Rightarrow> char" where
  "predict t ctx =
     (case find_ctx t ctx of
        None \<Rightarrow> CHR ''N''
      | Some arr \<Rightarrow> base_from_index (predict_loop arr 0 0 (- 1)))"

declare predict_loop.simps [simp del]

subsection \<open>The model file: formatted output and input\<close>

text \<open>
  \<open>save\<close> writes, and \<open>load\<close> reads, the file through the formatted stream operators
  of the C++ standard library in the default ("C") locale. A file is the string of its
  bytes. \<open>isspace\<close> is the locale's white space: space, and the control characters
  9 to 13 (tab, line feed, vertical tab, form feed, carriage return).
\<close>

definition isspace :: "char \<Rightarrow> bool" where
  "isspace c \<longleftrightarrow> (of_char c :: nat) = 32 \<or> (9 \<le> (of_char c :: nat) \<and> (of_char c :: nat) \<le> 13)"

definition isdigit :: "char \<Rightarrow> bool" where
  "isdigit c \<longleftrightarrow> 48 \<le> (of_char c :: nat) \<and> (of_char c :: nat) \<le> 57"

definition skipws :: "string \<Rightarrow> string" where
  "skipws s = dropWhile isspace s"

text \<open>
  \<open>in >> ctx\<close> for a \<open>std::string\<close>: skip white space, then take characters up to the
  next white space or the end of the input; the extraction fails when it takes none.
  Each reader returns the value and the rest of the input, or \<open>None\<close> for a stream that
  has failed.
\<close>

definition read_string :: "string \<Rightarrow> (string \<times> string) option" where
  "read_string s =
     (let s' = skipws s; tok = takeWhile (\<lambda>c. \<not> isspace c) s'
      in if tok = [] then None else Some (tok, dropWhile (\<lambda>c. \<not> isspace c) s'))"

text \<open>\<open>in >> base\<close> for a \<open>char\<close>: skip white space, take one character.\<close>

definition read_char :: "string \<Rightarrow> (char \<times> string) option" where
  "read_char s = (case skipws s of [] \<Rightarrow> None | c # rest \<Rightarrow> Some (c, rest))"

text \<open>
  \<open>in >> count\<close> for a \<open>size_t\<close>: skip white space, an optional sign, then the longest
  run of decimal digits. No digit, or a value above \<open>2^64 - 1\<close>, fails the extraction;
  a minus sign negates the value in unsigned arithmetic.
\<close>

definition digit_val :: "char \<Rightarrow> nat" where
  "digit_val c = of_char c - 48"

definition dec_value :: "string \<Rightarrow> nat" where
  "dec_value ds = foldl (\<lambda>a c. 10 * a + digit_val c) 0 ds"

definition read_size_t :: "string \<Rightarrow> (size_t \<times> string) option" where
  "read_size_t s =
     (let s' = skipws s;
          neg = (s' \<noteq> [] \<and> hd s' = CHR ''-'');
          s'' = (if s' \<noteq> [] \<and> (hd s' = CHR ''-'' \<or> hd s' = CHR ''+'') then tl s' else s');
          ds = takeWhile isdigit s'';
          v = dec_value ds
      in if ds = [] \<or> v \<ge> 2 ^ 64 then None
         else Some (if neg then - word_of_nat v else word_of_nat v, dropWhile isdigit s''))"

lemma read_string_shorter: "read_string s = Some (tok, rest) \<Longrightarrow> length rest < length s"
proof -
  assume a: "read_string s = Some (tok, rest)"
  let ?s' = "skipws s"
  from a have tok: "tok = takeWhile (\<lambda>c. \<not> isspace c) ?s'" "tok \<noteq> []"
    and rest: "rest = dropWhile (\<lambda>c. \<not> isspace c) ?s'"
    by (auto simp: read_string_def Let_def split: if_splits)
  have "length tok + length rest = length ?s'"
    unfolding tok(1) rest
    by (metis length_append takeWhile_dropWhile_id)
  moreover have "length ?s' \<le> length s"
    by (simp add: skipws_def length_dropWhile_le)
  moreover from tok(2) have "0 < length tok" by simp
  ultimately show ?thesis by linarith
qed

lemma read_char_shorter: "read_char s = Some (c, rest) \<Longrightarrow> length rest < length s"
proof -
  assume "read_char s = Some (c, rest)"
  then have "skipws s = c # rest"
    by (auto simp: read_char_def split: list.splits)
  moreover have "length (skipws s) \<le> length s"
    by (simp add: skipws_def length_dropWhile_le)
  ultimately show ?thesis by simp
qed

lemma read_size_t_shorter: "read_size_t s = Some (v, rest) \<Longrightarrow> length rest \<le> length s"
proof -
  assume a: "read_size_t s = Some (v, rest)"
  let ?s' = "skipws s"
  let ?s'' = "if ?s' \<noteq> [] \<and> (hd ?s' = CHR ''-'' \<or> hd ?s' = CHR ''+'') then tl ?s' else ?s'"
  from a have "rest = dropWhile isdigit ?s''"
    by (auto simp: read_size_t_def Let_def split: if_splits)
  then have "length rest \<le> length ?s''"
    by (simp only: length_dropWhile_le)
  moreover have "length ?s'' \<le> length ?s'" by simp
  moreover have "length ?s' \<le> length s"
    by (simp add: skipws_def length_dropWhile_le)
  ultimately show ?thesis by linarith
qed

text \<open>
  The loop of \<open>load\<close>: \<open>while (in >> ctx >> base >> count)\<close>. The chain of extractions
  stops at the first one that fails, and the loop ends there.
\<close>

function load_loop :: "table \<Rightarrow> string \<Rightarrow> table" where
  "load_loop t inp =
     (case read_string inp of
        None \<Rightarrow> t
      | Some (ctx, inp1) \<Rightarrow>
          (case read_char inp1 of
             None \<Rightarrow> t
           | Some (base, inp2) \<Rightarrow>
               (case read_size_t inp2 of
                  None \<Rightarrow> t
                | Some (count, inp3) \<Rightarrow>
                    (let idx = index base in
                     if idx \<ge> 0
                     then load_loop (store t ctx (set_slot (entry t ctx) idx count)) inp3
                     else load_loop t inp3))))"
  by pat_completeness auto
termination
proof (relation "measure (\<lambda>(t, inp). length inp)")
  show "wf (measure (\<lambda>(t, inp). length inp))" by simp
next
  fix t :: table and inp x2 x y x2a xa ya x2b xb yb xc
  assume "read_string inp = Some x2" "(x, y) = x2" "read_char y = Some x2a" "(xa, ya) = x2a"
    "read_size_t ya = Some x2b" "(xb, yb) = x2b"
  then have "length y < length inp" "length ya < length y" "length yb \<le> length ya"
    using read_string_shorter [of inp x y] read_char_shorter [of y xa ya]
      read_size_t_shorter [of ya xb yb] by simp_all
  then have "length yb < length inp" by linarith
  then show "((store t x (set_slot (entry t x) xc xb), yb), t, inp) \<in> measure (\<lambda>(t, inp). length inp)"
    and "((t, yb), t, inp) \<in> measure (\<lambda>(t, inp). length inp)"
    by simp_all
qed

declare load_loop.simps [simp del]

text \<open>
  \<open>load(path)\<close>: the file is \<open>None\<close> when the stream cannot be opened (\<open>if (!in) return;\<close>).
\<close>

definition load :: "table \<Rightarrow> string option \<Rightarrow> table" where
  "load t file = (case file of None \<Rightarrow> t | Some inp \<Rightarrow> load_loop t inp)"

text \<open>\<open>out << arr[i]\<close>: the decimal digits of an unsigned value.\<close>

definition digit_char :: "nat \<Rightarrow> char" where
  "digit_char d = char_of (48 + d)"

function show_nat :: "nat \<Rightarrow> string" where
  "show_nat n = (if n < 10 then [digit_char n] else show_nat (n div 10) @ [digit_char (n mod 10)])"
  by pat_completeness auto
termination
  by (relation "measure id") auto

declare show_nat.simps [simp del]

definition show_size_t :: "size_t \<Rightarrow> string" where
  "show_size_t v = show_nat (unat v)"

text \<open>
  \<open>save(path)\<close>: the two nested loops collect the records, in the table's iteration
  order and then by slot, and each record is written as one line. The stream is opened
  with \<open>std::ios::trunc\<close>, so the result is the whole file.
\<close>

definition records_of :: "string \<Rightarrow> counts \<Rightarrow> (string \<times> char \<times> size_t) list" where
  "records_of ctx arr =
     map (\<lambda>i. (ctx, base_from_index i, slot arr i)) (filter (\<lambda>i. slot arr i > 0) [0, 1, 2, 3])"

definition save_records :: "table \<Rightarrow> (string \<times> char \<times> size_t) list" where
  "save_records t = concat (map (\<lambda>(ctx, arr). records_of ctx arr) t)"

definition save_line :: "string \<times> char \<times> size_t \<Rightarrow> string" where
  "save_line r =
     (case r of (ctx, base, count) \<Rightarrow>
        ctx @ [CHR '' ''] @ [base] @ [CHR '' ''] @ show_size_t count @ [CHR 0x0A])"

definition save :: "table \<Rightarrow> string" where
  "save t = concat (map save_line (save_records t))"

section \<open>The imputation loop and the GC content (main.cpp)\<close>

text \<open>
  One iteration of the loop of \<open>main\<close> at index \<open>i\<close>, on the sequence (mutated in
  place) and the model. The loop only runs with \<open>2 \<le> i < sequence.size()\<close>.
\<close>

definition impute_step :: "nat \<Rightarrow> string \<Rightarrow> table \<Rightarrow> string \<times> table" where
  "impute_step i sequence model =
     (let ctx = [sequence ! (i - 2), sequence ! (i - 1)];
          base = sequence ! i;
          (base, sequence) =
            (if base \<noteq> CHR ''A'' \<and> base \<noteq> CHR ''C'' \<and> base \<noteq> CHR ''G'' \<and> base \<noteq> CHR ''T''
             then (let guess = predict model ctx in
                   if guess \<noteq> CHR ''N'' then (guess, sequence[i := guess])
                   else (base, sequence))
             else (base, sequence));
          (base, sequence) =
            (if base = CHR ''U'' then (CHR ''T'', sequence[i := CHR ''T'']) else (base, sequence))
      in (sequence, update model ctx base))"

lemma length_impute_step: "length (fst (impute_step i sequence model)) = length sequence"
  by (simp add: impute_step_def Let_def split_def)

function impute_loop :: "nat \<Rightarrow> string \<Rightarrow> table \<Rightarrow> string \<times> table" where
  "impute_loop i sequence model =
     (if i < length sequence
      then (case impute_step i sequence model of
              (sequence', model') \<Rightarrow> impute_loop (i + 1) sequence' model')
      else (sequence, model))"
  by pat_completeness auto
termination
proof (relation "measure (\<lambda>(i, sequence, model). length sequence - i)")
  show "wf (measure (\<lambda>(i, sequence, model). length sequence - i))" by simp
next
  fix i :: nat and sequence sequence' :: string and model model' :: table
  assume "i < length sequence" and step: "(sequence', model') = impute_step i sequence model"
  from step have "length sequence' = length sequence"
    using length_impute_step [of i sequence model] by (metis fst_conv)
  with \<open>i < length sequence\<close>
  show "((i + 1, sequence', model'), i, sequence, model)
          \<in> measure (\<lambda>(i, sequence, model). length sequence - i)"
    by simp
qed

declare impute_loop.simps [simp del]

text \<open>
  The block of \<open>main\<close> between \<open>model.load\<close> and \<open>model.save\<close>: the corrected sequence
  and the model after the loop.
\<close>

definition impute :: "table \<Rightarrow> string \<Rightarrow> string \<times> table" where
  "impute model raw = (if length raw \<ge> 2 then impute_loop 2 raw model else (raw, model))"

text \<open>
  The model part of a whole run of \<open>main\<close> on the residues \<open>raw\<close>: the model file
  before (\<open>None\<close> when there is none), the corrected sequence and the model file after.
\<close>

definition run_model :: "string option \<Rightarrow> string \<Rightarrow> string \<times> string" where
  "run_model file raw = (case impute (load [] file) raw of (sequence, model) \<Rightarrow> (sequence, save model))"

subsection \<open>GC content\<close>

text \<open>\<open>std::toupper\<close> on an \<open>unsigned char\<close> in the "C" locale.\<close>

definition toupper :: "char \<Rightarrow> char" where
  "toupper c =
     (if 97 \<le> (of_char c :: nat) \<and> (of_char c :: nat) \<le> 122
      then char_of ((of_char c :: nat) - 32) else c)"

text \<open>
  The counting loop of \<open>gc_content\<close>, with its two counters. A \<open>std::string\<close> is
  shorter than \<open>2^64\<close>, so neither \<open>size_t\<close> counter wraps and both are naturals here.
\<close>

fun gc_loop :: "string \<Rightarrow> nat \<Rightarrow> nat \<Rightarrow> nat \<times> nat" where
  "gc_loop [] gc total_n = (gc, total_n)"
| "gc_loop (c # cs) gc total_n =
     (let upper = toupper c;
          gc = (if upper = CHR ''G'' \<or> upper = CHR ''C'' then gc + 1 else gc);
          total_n = (if upper = CHR ''A'' \<or> upper = CHR ''T'' \<or> upper = CHR ''G''
                      \<or> upper = CHR ''C'' \<or> upper = CHR ''U'' then total_n + 1 else total_n)
      in gc_loop cs gc total_n)"

text \<open>
  The division of two counters as \<open>double\<close>s. The quotient is kept exact, as a rational
  (the \<open>double\<close> is the representable number nearest to it, the quotient itself when that
  is a dyadic fraction such as 1/2). A zero divisor has no finite quotient: \<open>None\<close>.
\<close>

definition divide_double :: "nat \<Rightarrow> nat \<Rightarrow> rat option" where
  "divide_double a b = (if b = 0 then None else Some (of_nat a / of_nat b))"

definition gc_content :: "string \<Rightarrow> rat option" where
  "gc_content sequence =
     (case gc_loop sequence 0 0 of
        (gc, total_n) \<Rightarrow> if total_n = 0 then Some 0 else divide_double gc total_n)"

section \<open>Fetching a sequence (main.cpp)\<close>

text \<open>
  The outside world of \<open>fetch_sequence\<close>. A call of \<open>curl_easy_perform\<close> returns a
  \<open>CURLcode\<close> (0 is \<open>CURLE_OK\<close>); while it runs, libcurl hands every chunk of the body
  it receives to the write callback, also on a transfer that fails later (a connection
  lost half way: \<open>CURLE_PARTIAL_FILE\<close>, \<open>CURLE_RECV_ERROR\<close>); afterwards
  \<open>CURLINFO_RESPONSE_CODE\<close> is the status of the last response. \<open>curl_easy_perform w k\<close>
  is the \<open>k\<close>-th call on the handle (counted from 0).
\<close>

record transfer =
  code :: nat
  chunks :: "string list"
  response_code :: int

datatype local_file = Absent | Unopenable | Contents string

record world =
  local_file :: local_file
  curl_init :: bool
  curl_easy_perform :: "nat \<Rightarrow> transfer"

definition CURLE_OK :: nat where
  "CURLE_OK = 0"

text \<open>The four \<open>std::runtime_error\<close>s of \<open>fetch_sequence\<close>, by their messages.\<close>

datatype error =
  Failed_to_open_file
  | Failed_to_init_curl
  | Network_error
  | HTTP_response_code int

text \<open>\<open>WriteCallback\<close> appends the chunk to the string behind \<open>userp\<close>.\<close>

definition WriteCallback :: "string \<Rightarrow> string \<Rightarrow> string" where
  "WriteCallback s contents = s @ contents"

text \<open>
  The variables of \<open>fetch_sequence\<close> that the retry loop changes: \<open>res\<close>, the one
  \<open>buffer\<close> registered with \<open>CURLOPT_WRITEDATA\<close> before the loop, and, to observe the
  loop, the number of transfers performed and the sleeps in milliseconds.
\<close>

record fetch_state =
  res :: nat
  buffer :: string
  http_code :: int
  performed :: nat
  slept :: "nat list"

function retry_loop :: "(nat \<Rightarrow> transfer) \<Rightarrow> nat \<Rightarrow> fetch_state \<Rightarrow> fetch_state" where
  "retry_loop perform attempt st =
     (if attempt < 3 then
        (let tr = perform attempt;
             st = st\<lparr>res := code tr,
                     buffer := foldl WriteCallback (buffer st) (chunks tr),
                     http_code := response_code tr,
                     performed := performed st + 1\<rparr>
         in if res st = CURLE_OK then st
            else retry_loop perform (attempt + 1) (st\<lparr>slept := slept st @ [100 * 2 ^ attempt]\<rparr>))
      else st)"
  by pat_completeness auto
termination
  by (relation "measure (\<lambda>(perform, attempt, st). 3 - attempt)") auto

declare retry_loop.simps [simp del]

definition fetch_remote :: "(nat \<Rightarrow> transfer) \<Rightarrow> fetch_state" where
  "fetch_remote perform =
     retry_loop perform 0 \<lparr>res = CURLE_OK, buffer = [], http_code = 0, performed = 0, slept = []\<rparr>"

definition fetch_sequence :: "world \<Rightarrow> error + string" where
  "fetch_sequence w =
     (case local_file w of
        Contents text \<Rightarrow> Inr text
      | Unopenable \<Rightarrow> Inl Failed_to_open_file
      | Absent \<Rightarrow>
          if \<not> curl_init w then Inl Failed_to_init_curl
          else (let st = fetch_remote (curl_easy_perform w) in
                if res st \<noteq> CURLE_OK then Inl Network_error
                else if http_code st \<noteq> 200 then Inl (HTTP_response_code (http_code st))
                else Inr (buffer st)))"

text \<open>
  A network on which the first transfer breaks off after part of the body has arrived
  (\<open>CURLE_PARTIAL_FILE\<close>, 18), the second cannot connect (\<open>CURLE_COULDNT_CONNECT\<close>, 7)
  and the third succeeds with status 200.
\<close>

definition flaky :: "nat \<Rightarrow> transfer" where
  "flaky k =
     (if k = 0 then \<lparr>code = 18, chunks = [''>X'' @ [CHR 0x0A] @ ''AC''], response_code = 200\<rparr>
      else if k = 1 then \<lparr>code = 7, chunks = [], response_code = 0\<rparr>
      else \<lparr>code = CURLE_OK, chunks = [''>X'' @ [CHR 0x0A] @ ''ACGT'' @ [CHR 0x0A]], response_code = 200\<rparr>)"

section \<open>Properties of the context model\<close>

subsection \<open>Table lookups\<close>

lemma find_ctx_store:
  "find_ctx (store t k arr) ctx = (if ctx = k then Some arr else find_ctx t ctx)"
  by (simp add: find_ctx_def store_def update_conv')

lemma entry_store:
  "entry (store t k arr) ctx = (if ctx = k then arr else entry t ctx)"
  by (simp add: entry_def find_ctx_store)

lemma slot_set_slot:
  "i \<in> {0..3} \<Longrightarrow> j \<in> {0..3} \<Longrightarrow>
   slot (set_slot arr i v) j = (if j = i then v else slot arr j)"
  by (cases arr) (auto simp: slot_def set_slot_def)

lemma index_range: "index b \<ge> 0 \<longleftrightarrow> b \<in> set ''ACGT''"
  by (simp add: index_def)

lemma index_bounds: "b \<in> set ''ACGT'' \<Longrightarrow> index b \<in> {0..3}"
  by (auto simp: index_def)

subsection \<open>The scan of predict\<close>

lemma predict_loop_4: "predict_loop arr 4 best idx = idx"
  by (subst predict_loop.simps) simp

lemma predict_loop_3:
  "predict_loop arr 3 best idx = (if c3 arr > best then 3 else idx)"
  by (subst predict_loop.simps) (simp add: predict_loop_4 slot_def)

lemma predict_loop_2:
  "predict_loop arr 2 best idx =
     (if c2 arr > best then predict_loop arr 3 (c2 arr) 2 else predict_loop arr 3 best idx)"
  by (subst predict_loop.simps) (simp add: slot_def)

lemma predict_loop_1:
  "predict_loop arr 1 best idx =
     (if c1 arr > best then predict_loop arr 2 (c1 arr) 1 else predict_loop arr 2 best idx)"
  by (subst predict_loop.simps) (simp add: slot_def)

lemma predict_loop_0:
  "predict_loop arr 0 best idx =
     (if c0 arr > best then predict_loop arr 1 (c0 arr) 0 else predict_loop arr 1 best idx)"
  by (subst predict_loop.simps) (simp add: slot_def)

lemmas predict_loop_unroll =
  predict_loop_0 predict_loop_1 predict_loop_2 predict_loop_3

lemma predict_loop_all_zero:
  "c0 arr = 0 \<Longrightarrow> c1 arr = 0 \<Longrightarrow> c2 arr = 0 \<Longrightarrow> c3 arr = 0 \<Longrightarrow>
   predict_loop arr 0 0 (- 1) = - 1"
  by (simp add: predict_loop_unroll)

lemma ball_slots: "(\<forall>j\<in>{0..3::int}. P j) \<longleftrightarrow> P 0 \<and> P 1 \<and> P 2 \<and> P 3"
proof -
  have "{0..3::int} = {0, 1, 2, 3}" by auto
  then show ?thesis by simp
qed

lemma predict_loop_first_max:
  assumes "i \<in> {0..3}" "0 < slot arr i"
    and "\<forall>j\<in>{0..3}. slot arr j \<le> slot arr i"
    and "\<forall>j\<in>{0..<i}. slot arr j < slot arr i"
  shows "predict_loop arr 0 0 (- 1) = i"
proof -
  have le: "slot arr j \<le> slot arr i" if "0 \<le> j" "j \<le> 3" for j
    using assms(3) that by simp
  have lt: "slot arr j < slot arr i" if "0 \<le> j" "j < i" for j
    using assms(4) that by simp
  from assms(1) consider "i = 0" | "i = 1" | "i = 2" | "i = 3" by force
  then show ?thesis
  proof cases
    case 1
    with assms(2) le [of 1] le [of 2] le [of 3]
    have "0 < c0 arr" "c1 arr \<le> c0 arr" "c2 arr \<le> c0 arr" "c3 arr \<le> c0 arr"
      by (simp_all add: slot_def)
    then show ?thesis using 1 by (simp add: predict_loop_unroll not_less)
  next
    case 2
    with assms(2) lt [of 0] le [of 2] le [of 3]
    have "0 < c1 arr" "c0 arr < c1 arr" "c2 arr \<le> c1 arr" "c3 arr \<le> c1 arr"
      by (simp_all add: slot_def)
    then show ?thesis using 2 by (auto simp add: predict_loop_unroll not_less)
  next
    case 3
    with assms(2) lt [of 0] lt [of 1] le [of 3]
    have "0 < c2 arr" "c0 arr < c2 arr" "c1 arr < c2 arr" "c3 arr \<le> c2 arr"
      by (simp_all add: slot_def)
    then show ?thesis using 3 by (auto simp add: predict_loop_unroll not_less)
  next
    case 4
    with assms(2) lt [of 0] lt [of 1] lt [of 2]
    have "0 < c3 arr" "c0 arr < c3 arr" "c1 arr < c3 arr" "c2 arr < c3 arr"
      by (simp_all add: slot_def)
    then show ?thesis using 4 by (auto simp add: predict_loop_unroll not_less)
  qed
qed

text \<open>
  C3. \<open>predict\<close> returns the unknown sentinel \<open>N\<close> for a context that is not in the
  table and for one whose four counts are all zero. Otherwise it returns the base of the
  first slot, in the order A, C, G, T, that holds the maximum count: the base with the
  strictly highest count when there is one, and the lowest-indexed base among those that
  share the maximum.
\<close>

theorem predict_spec:
  "(find_ctx t ctx = None \<longrightarrow> predict t ctx = CHR ''N'') \<and>
   (\<forall>arr. find_ctx t ctx = Some arr \<and> (\<forall>j\<in>{0..3}. slot arr j = 0)
      \<longrightarrow> predict t ctx = CHR ''N'') \<and>
   (\<forall>arr i. find_ctx t ctx = Some arr \<and> i \<in> {0..3} \<and> 0 < slot arr i \<and>
      (\<forall>j\<in>{0..3}. slot arr j \<le> slot arr i) \<and> (\<forall>j\<in>{0..<i}. slot arr j < slot arr i)
      \<longrightarrow> predict t ctx = base_from_index i \<and> base_from_index i \<in> set ''ACGT'')"
proof (intro conjI allI impI)
  show "predict t ctx = CHR ''N''" if "find_ctx t ctx = None"
    using that by (simp add: predict_def)
next
  fix arr
  assume a: "find_ctx t ctx = Some arr \<and> (\<forall>j\<in>{0..3}. slot arr j = 0)"
  then have "slot arr 0 = 0" "slot arr 1 = 0" "slot arr 2 = 0" "slot arr 3 = 0"
    by (simp_all add: ball_slots)
  then have "predict_loop arr 0 0 (- 1) = - 1"
    by (intro predict_loop_all_zero) (simp_all add: slot_def)
  with a show "predict t ctx = CHR ''N''"
    by (simp add: predict_def base_from_index_def)
next
  fix arr i
  assume a: "find_ctx t ctx = Some arr \<and> i \<in> {0..3} \<and> 0 < slot arr i \<and>
      (\<forall>j\<in>{0..3}. slot arr j \<le> slot arr i) \<and> (\<forall>j\<in>{0..<i}. slot arr j < slot arr i)"
  then have "predict_loop arr 0 0 (- 1) = i"
    by (intro predict_loop_first_max) simp_all
  with a show "predict t ctx = base_from_index i"
    by (simp add: predict_def)
  from a have "i = 0 \<or> i = 1 \<or> i = 2 \<or> i = 3" by force
  then show "base_from_index i \<in> set ''ACGT''"
    by (auto simp: base_from_index_def)
qed

theorem predict_spec_witness:
  "predict [] ''AA'' = CHR ''N'' \<and>
   predict [(''AA'', Counts 0 0 0 0)] ''AA'' = CHR ''N'' \<and>
   predict [(''AA'', Counts 0 1 2 0)] ''AA'' = CHR ''G'' \<and>
   predict [(''AA'', Counts 1 2 2 0)] ''AA'' = CHR ''C''"
proof -
  have 1: "predict [] ''AA'' = CHR ''N''"
    using predict_spec [of "[]" "''AA''"] by (simp add: find_ctx_def)
  have 2: "predict [(''AA'', Counts 0 0 0 0)] ''AA'' = CHR ''N''"
    using predict_spec [of "[(''AA'', Counts 0 0 0 0)]" "''AA''"]
    by (simp add: find_ctx_def slot_def)
  have 3: "predict [(''AA'', Counts 0 1 2 0)] ''AA'' = CHR ''G''"
    using predict_spec [of "[(''AA'', Counts 0 1 2 0)]" "''AA''", THEN conjunct2, THEN conjunct2,
        THEN spec, THEN spec, of "Counts 0 1 2 0" 2]
    by (simp add: find_ctx_def slot_def base_from_index_def)
  have 4: "predict [(''AA'', Counts 1 2 2 0)] ''AA'' = CHR ''C''"
    using predict_spec [of "[(''AA'', Counts 1 2 2 0)]" "''AA''", THEN conjunct2, THEN conjunct2,
        THEN spec, THEN spec, of "Counts 1 2 2 0" 1]
    by (simp add: find_ctx_def slot_def base_from_index_def)
  from 1 2 3 4 show ?thesis by simp
qed

text \<open>
  C8. \<open>update\<close> with a base among A, C, G, T adds one to the count of that (context,
  base) pair and changes no other count and no other context's entry; with any other
  base it returns the model as it was. The addition is that of \<open>size_t\<close>: it is the
  successor of the count as a number unless the count is \<open>2^64 - 1\<close>, where \<open>++\<close>
  wraps to 0.
\<close>

theorem update_spec:
  "(next \<in> set ''ACGT'' \<longrightarrow>
      count_of (update t ctx next) ctx (index next) = count_of t ctx (index next) + 1 \<and>
      (unat (count_of t ctx (index next)) < 2 ^ 64 - 1 \<longrightarrow>
         unat (count_of (update t ctx next) ctx (index next)) =
         unat (count_of t ctx (index next)) + 1) \<and>
      (\<forall>ctx' i. i \<in> {0..3} \<and> (ctx', i) \<noteq> (ctx, index next) \<longrightarrow>
         count_of (update t ctx next) ctx' i = count_of t ctx' i) \<and>
      (\<forall>ctx'. ctx' \<noteq> ctx \<longrightarrow> find_ctx (update t ctx next) ctx' = find_ctx t ctx')) \<and>
   (next \<notin> set ''ACGT'' \<longrightarrow> update t ctx next = t)"
proof (intro conjI impI allI)
  assume n: "next \<in> set ''ACGT''"
  then have idx: "index next \<ge> 0" "index next \<in> {0..3}"
    by (simp_all only: index_range index_bounds)
  show inc: "count_of (update t ctx next) ctx (index next) = count_of t ctx (index next) + 1"
    using idx by (simp add: update_def Let_def count_of_def entry_store slot_set_slot)
  show "unat (count_of (update t ctx next) ctx (index next)) =
        unat (count_of t ctx (index next)) + 1"
    if "unat (count_of t ctx (index next)) < 2 ^ 64 - 1"
  proof -
    from that have "unat (count_of t ctx (index next)) + unat (1 :: size_t) < 2 ^ LENGTH(64)"
      by simp
    then have "unat (count_of t ctx (index next) + 1) = unat (count_of t ctx (index next)) + unat (1 :: size_t)"
      by (simp only: unat_add_lem)
    then show ?thesis by (simp add: inc)
  qed
  show "count_of (update t ctx next) ctx' i = count_of t ctx' i"
    if "i \<in> {0..3} \<and> (ctx', i) \<noteq> (ctx, index next)" for ctx' i
    using idx that by (auto simp add: update_def Let_def count_of_def entry_store slot_set_slot)
  show "find_ctx (update t ctx next) ctx' = find_ctx t ctx'" if "ctx' \<noteq> ctx" for ctx'
    using idx that by (simp add: update_def Let_def find_ctx_store)
next
  assume "next \<notin> set ''ACGT''"
  then have "\<not> index next \<ge> 0" by (simp add: index_range)
  then show "update t ctx next = t" by (simp add: update_def)
qed

theorem update_spec_witness:
  "count_of (update [(''AC'', Counts 0 7 0 0)] ''AC'' (CHR ''C'')) ''AC'' 1 = 8 \<and>
   count_of (update [(''AC'', Counts 0 7 0 0)] ''AC'' (CHR ''C'')) ''AC'' 0 = 0 \<and>
   find_ctx (update [(''AC'', Counts 0 7 0 0)] ''AC'' (CHR ''C'')) ''GG'' = None \<and>
   update [(''AC'', Counts 0 7 0 0)] ''AC'' (CHR ''N'') = [(''AC'', Counts 0 7 0 0)]"
proof -
  have a: "CHR ''C'' \<in> set ''ACGT''" and b: "CHR ''N'' \<notin> set ''ACGT''" by simp_all
  have i: "index (CHR ''C'') = 1" by (simp add: index_def)
  note u = update_spec [of "CHR ''C''" "[(''AC'', Counts 0 7 0 0)]" "''AC''"]
  note v = update_spec [of "CHR ''N''" "[(''AC'', Counts 0 7 0 0)]" "''AC''"]
  have c1: "count_of [(''AC'', Counts 0 7 0 0)] ''AC'' 1 = 7"
    and c0: "count_of [(''AC'', Counts 0 7 0 0)] ''AC'' 0 = 0"
    and f: "find_ctx [(''AC'', Counts 0 7 0 0)] ''GG'' = None"
    by (simp_all add: count_of_def entry_def find_ctx_def slot_def)
  from u a have u1:
    "count_of (update [(''AC'', Counts 0 7 0 0)] ''AC'' (CHR ''C'')) ''AC'' (index (CHR ''C'')) =
     count_of [(''AC'', Counts 0 7 0 0)] ''AC'' (index (CHR ''C'')) + 1"
    and u2: "\<And>ctx' i. i \<in> {0..3} \<and> (ctx', i) \<noteq> (''AC'', index (CHR ''C'')) \<Longrightarrow>
      count_of (update [(''AC'', Counts 0 7 0 0)] ''AC'' (CHR ''C'')) ctx' i =
      count_of [(''AC'', Counts 0 7 0 0)] ctx' i"
    and u3: "\<And>ctx'. ctx' \<noteq> ''AC'' \<Longrightarrow>
      find_ctx (update [(''AC'', Counts 0 7 0 0)] ''AC'' (CHR ''C'')) ctx' =
      find_ctx [(''AC'', Counts 0 7 0 0)] ctx'"
    by blast+
  from u1 i c1 have 1:
    "count_of (update [(''AC'', Counts 0 7 0 0)] ''AC'' (CHR ''C'')) ''AC'' 1 = 8"
    by simp
  from u2 [of 0 "''AC''"] i c0 have 2:
    "count_of (update [(''AC'', Counts 0 7 0 0)] ''AC'' (CHR ''C'')) ''AC'' 0 = 0"
    by simp
  from u3 [of "''GG''"] f have 3:
    "find_ctx (update [(''AC'', Counts 0 7 0 0)] ''AC'' (CHR ''C'')) ''GG'' = None"
    by simp
  from v b have 4: "update [(''AC'', Counts 0 7 0 0)] ''AC'' (CHR ''N'') = [(''AC'', Counts 0 7 0 0)]"
    by simp
  from 1 2 3 4 show ?thesis by simp
qed

section \<open>Properties of the imputation loop\<close>

subsection \<open>One iteration\<close>

lemma impute_step_fst_cases:
  "fst (impute_step i s m) = s \<or> (\<exists>b. fst (impute_step i s m) = s[i := b])"
  by (auto simp add: impute_step_def Let_def split_def)

lemma impute_step_nth_other: "j \<noteq> i \<Longrightarrow> fst (impute_step i s m) ! j = s ! j"
  using impute_step_fst_cases [of i s m] by auto

lemma impute_step_canonical:
  "s ! i \<in> set ''ACGT'' \<Longrightarrow> fst (impute_step i s m) = s"
  by (auto simp add: impute_step_def Let_def split_def)

lemma impute_step_take_before: "n \<le> i \<Longrightarrow> take n (fst (impute_step i s m)) = take n s"
  using impute_step_fst_cases [of i s m] by auto

lemma impute_step_take:
  assumes "i < n"
  shows "impute_step i (take n s) m = (take n (fst (impute_step i s m)), snd (impute_step i s m))"
proof -
  from assms have "take n s ! i = s ! i" "take n s ! (i - 2) = s ! (i - 2)"
    "take n s ! (i - 1) = s ! (i - 1)"
    by simp_all
  then show ?thesis
    by (simp add: impute_step_def Let_def split_def take_update_swap)
qed

lemma impute_loop_length: "length (fst (impute_loop i s m)) = length s"
proof (induction i s m rule: impute_loop.induct)
  case (1 i s m)
  show ?case
  proof (cases "i < length s")
    case True
    obtain s' m' where st: "impute_step i s m = (s', m')" by (cases "impute_step i s m")
    then have "length s' = length s"
      using length_impute_step [of i s m] by simp
    moreover have "length (fst (impute_loop (i + 1) s' m')) = length s'"
      using "1.IH" [OF True st [symmetric]] .
    ultimately show ?thesis
      using True st by (subst impute_loop.simps) simp
  next
    case False
    then show ?thesis by (subst impute_loop.simps) simp
  qed
qed

lemma impute_loop_take_before: "n \<le> i \<Longrightarrow> take n (fst (impute_loop i s m)) = take n s"
proof (induction i s m rule: impute_loop.induct)
  case (1 i s m)
  show ?case
  proof (cases "i < length s")
    case True
    obtain s' m' where st: "impute_step i s m = (s', m')" by (cases "impute_step i s m")
    then have "take n s' = take n s"
      using impute_step_take_before [of n i s m] "1.prems" by simp
    moreover have "take n (fst (impute_loop (i + 1) s' m')) = take n s'"
      using "1.IH" [OF True st [symmetric]] "1.prems" by simp
    ultimately show ?thesis
      using True st by (subst impute_loop.simps) simp
  next
    case False
    then show ?thesis by (subst impute_loop.simps) simp
  qed
qed

lemma impute_loop_canonical:
  "j < length s \<Longrightarrow> s ! j \<in> set ''ACGT'' \<Longrightarrow> fst (impute_loop i s m) ! j = s ! j"
proof (induction i s m rule: impute_loop.induct)
  case (1 i s m)
  show ?case
  proof (cases "i < length s")
    case True
    obtain s' m' where st: "impute_step i s m = (s', m')" by (cases "impute_step i s m")
    have same: "s' ! j = s ! j"
    proof (cases "j = i")
      case True
      with "1.prems" st impute_step_canonical [of s i m] show ?thesis by simp
    next
      case False
      with st impute_step_nth_other [of j i s m] show ?thesis by simp
    qed
    have len: "length s' = length s"
      using st length_impute_step [of i s m] by simp
    have "fst (impute_loop (i + 1) s' m') ! j = s' ! j"
      using "1.IH" [OF True st [symmetric]] "1.prems" same len by simp
    with same show ?thesis
      using True st by (subst impute_loop.simps) simp
  next
    case False
    then show ?thesis by (subst impute_loop.simps) simp
  qed
qed

lemma impute_loop_take:
  "i \<le> n \<Longrightarrow> n \<le> length s \<Longrightarrow>
   fst (impute_loop i (take n s) m) = take n (fst (impute_loop i s m))"
proof (induction i s m rule: impute_loop.induct)
  case (1 i s m)
  show ?case
  proof (cases "i < n")
    case True
    with "1.prems" have lt: "i < length s" by simp
    obtain s' m' where st: "impute_step i s m = (s', m')" by (cases "impute_step i s m")
    have len: "length s' = length s"
      using st length_impute_step [of i s m] by simp
    have stt: "impute_step i (take n s) m = (take n s', m')"
      using impute_step_take [OF True, of s m] st by simp
    have "fst (impute_loop (i + 1) (take n s') m') = take n (fst (impute_loop (i + 1) s' m'))"
      using "1.IH" [OF lt st [symmetric]] True "1.prems" len by simp
    moreover have "impute_loop i s m = impute_loop (i + 1) s' m'"
      using lt st by (subst impute_loop.simps) simp
    moreover have "impute_loop i (take n s) m = impute_loop (i + 1) (take n s') m'"
      using True "1.prems" stt by (subst impute_loop.simps) simp
    ultimately show ?thesis by simp
  next
    case False
    with "1.prems" have "n = i" by simp
    then have "impute_loop i (take n s) m = (take n s, m)"
      by (subst impute_loop.simps) simp
    moreover have "take n (fst (impute_loop i s m)) = take n s"
      using \<open>n = i\<close> by (simp add: impute_loop_take_before)
    ultimately show ?thesis by simp
  qed
qed

lemma impute_length: "length (fst (impute m s)) = length s"
  by (simp add: impute_def impute_loop_length)

lemma impute_take:
  assumes "n \<le> length s"
  shows "fst (impute m (take n s)) = take n (fst (impute m s))"
proof (cases "2 \<le> n")
  case True
  with assms show ?thesis
    by (simp add: impute_def impute_loop_take)
next
  case False
  then have "take n (fst (impute m s)) = take n s"
    by (simp add: impute_def impute_loop_take_before)
  moreover from False assms have "fst (impute m (take n s)) = take n s"
    by (simp add: impute_def)
  ultimately show ?thesis by simp
qed

lemma impute_step_drop_after: "k < n \<Longrightarrow> drop n (fst (impute_step k s m)) = drop n s"
  using impute_step_fst_cases [of k s m] by auto

lemma impute_loop_split:
  "k \<le> i \<Longrightarrow> i \<le> length s \<Longrightarrow>
   impute_loop k s m =
     impute_loop i (fst (impute_loop k (take i s) m) @ drop i s) (snd (impute_loop k (take i s) m))"
proof (induction k s m rule: impute_loop.induct)
  case (1 k s m)
  show ?case
  proof (cases "k < i")
    case True
    with "1.prems" have lt: "k < length s" by simp
    obtain s1 m1 where st: "impute_step k s m = (s1, m1)" by (cases "impute_step k s m")
    have len: "length s1 = length s"
      using st length_impute_step [of k s m] by simp
    have stt: "impute_step k (take i s) m = (take i s1, m1)"
      using impute_step_take [OF True, of s m] st by simp
    have dr: "drop i s1 = drop i s"
      using impute_step_drop_after [OF True, of s m] st by simp
    have full: "impute_loop k s m = impute_loop (k + 1) s1 m1"
      using lt st by (subst impute_loop.simps) simp
    have pre: "impute_loop k (take i s) m = impute_loop (k + 1) (take i s1) m1"
      using True "1.prems" stt by (subst impute_loop.simps) simp
    have "impute_loop (k + 1) s1 m1 =
        impute_loop i (fst (impute_loop (k + 1) (take i s1) m1) @ drop i s1)
          (snd (impute_loop (k + 1) (take i s1) m1))"
      using "1.IH" [OF lt st [symmetric]] True "1.prems" len by simp
    then show ?thesis
      by (simp only: full pre dr)
  next
    case False
    with "1.prems" have "k = i" by simp
    then have "impute_loop k (take i s) m = (take i s, m)"
      by (subst impute_loop.simps) simp
    then show ?thesis
      using \<open>k = i\<close> by simp
  qed
qed

lemma impute_step_at:
  "i < length s \<Longrightarrow>
   fst (impute_step i s M) ! i =
     (let guess = predict M [s ! (i - 2), s ! (i - 1)];
          base = (if s ! i \<notin> set ''ACGT'' \<and> guess \<noteq> CHR ''N'' then guess else s ! i)
      in if base = CHR ''U'' then CHR ''T'' else base)"
  by (auto simp add: impute_step_def Let_def split_def)

lemma impute_at:
  assumes "2 \<le> i" "i < length s"
  shows "fst (impute m s) ! i =
     (let before = impute m (take i s);
          guess = predict (snd before) [fst before ! (i - 2), fst before ! (i - 1)];
          base = (if s ! i \<notin> set ''ACGT'' \<and> guess \<noteq> CHR ''N'' then guess else s ! i)
      in if base = CHR ''U'' then CHR ''T'' else base)"
proof -
  let ?p = "fst (impute m (take i s))" and ?M = "snd (impute m (take i s))"
  let ?s = "?p @ drop i s"
  from assms have b: "impute m (take i s) = impute_loop 2 (take i s) m"
    by (simp add: impute_def)
  have lp: "length ?p = i"
    using assms by (simp add: impute_length)
  from assms have "impute m s = impute_loop 2 s m" by (simp add: impute_def)
  also have "\<dots> = impute_loop i ?s ?M"
    using impute_loop_split [of 2 i s m] assms by (simp only: b)
  finally have whole: "impute m s = impute_loop i ?s ?M" .
  have ls: "i < length ?s" using lp assms by simp
  obtain s2 M2 where st: "impute_step i ?s ?M = (s2, M2)" by (cases "impute_step i ?s ?M")
  have "impute_loop i ?s ?M = impute_loop (i + 1) s2 M2"
    using ls st by (subst impute_loop.simps) simp
  then have "take (Suc i) (fst (impute m s)) = take (Suc i) s2"
    using impute_loop_take_before [of "Suc i" "i + 1" s2 M2] whole by simp
  then have "fst (impute m s) ! i = s2 ! i"
    by (metis lessI nth_take)
  moreover have rd: "?s ! i = s ! i" "?s ! (i - 2) = ?p ! (i - 2)" "?s ! (i - 1) = ?p ! (i - 1)"
    using lp assms by (simp_all add: nth_append)
  have "s2 ! i =
     (let guess = predict ?M [?p ! (i - 2), ?p ! (i - 1)];
          base = (if s ! i \<notin> set ''ACGT'' \<and> guess \<noteq> CHR ''N'' then guess else s ! i)
      in if base = CHR ''U'' then CHR ''T'' else base)"
    using impute_step_at [OF ls, of ?M] st by (simp only: rd fst_conv)
  ultimately show ?thesis by (simp add: Let_def)
qed

lemma impute_first_two: "i < 2 \<Longrightarrow> i < length s \<Longrightarrow> fst (impute m s) ! i = s ! i"
proof -
  assume a: "i < 2" "i < length s"
  have "take 2 (fst (impute m s)) = take 2 s"
    by (simp add: impute_def impute_loop_take_before)
  with a show ?thesis by (metis nth_take)
qed

lemma impute_agree:
  assumes "i < length s1" "i < length s2" and agree: "\<forall>j\<le>i. s1 ! j = s2 ! j"
  shows "fst (impute m s1) ! i = fst (impute m s2) ! i"
proof -
  have pre: "take (Suc i) s1 = take (Suc i) s2"
  proof (rule nth_equalityI)
    show "length (take (Suc i) s1) = length (take (Suc i) s2)"
      using assms(1,2) by simp
    show "take (Suc i) s1 ! j = take (Suc i) s2 ! j" if "j < length (take (Suc i) s1)" for j
      using that agree by simp
  qed
  have "fst (impute m s1) ! i = take (Suc i) (fst (impute m s1)) ! i" by simp
  also have "\<dots> = fst (impute m (take (Suc i) s1)) ! i"
    using assms(1) by (simp add: impute_take)
  also have "\<dots> = fst (impute m (take (Suc i) s2)) ! i"
    by (simp only: pre)
  also have "\<dots> = take (Suc i) (fst (impute m s2)) ! i"
    using assms(2) by (simp add: impute_take)
  also have "\<dots> = fst (impute m s2) ! i" by simp
  finally show ?thesis .
qed

lemma impute_AC: "impute [(''AC'', Counts 0 0 5 0)] ''AC'' = (''AC'', [(''AC'', Counts 0 0 5 0)])"
  by code_simp

lemma impute_ACA: "impute [] ''ACA'' = (''ACA'', [(''AC'', Counts 1 0 0 0)])"
  by code_simp

lemma impute_ACG: "impute [] ''ACG'' = (''ACG'', [(''AC'', Counts 0 0 1 0)])"
  by code_simp

lemma impute_ACN: "impute [] ''ACN'' = (''ACN'', [])"
  by code_simp

lemma impute_ACU: "impute [] ''ACU'' = (''ACT'', [(''AC'', Counts 0 0 0 1)])"
  by code_simp

text \<open>
  C4, as the code has it. The residue produced at position \<open>i\<close> depends on the input
  up to and including \<open>i\<close>, and on nothing after it: two inputs that agree on the
  positions 0 to \<open>i\<close> give corrected sequences that agree at \<open>i\<close>, for every starting
  model. Of the residue at \<open>i\<close> itself only its own value enters. The first two
  positions are copied. From the third on, the output at \<open>i\<close> is what the loop body
  makes of the input residue at \<open>i\<close> and of the guess, and the guess is \<open>predict\<close> on the
  model and the two corrected residues that the run on the input before \<open>i\<close> leaves:
  the prediction is a function of the residues strictly before \<open>i\<close> only.
\<close>

theorem impute_causal:
  "(i < length s1 \<and> i < length s2 \<and> (\<forall>j\<le>i. s1 ! j = s2 ! j) \<longrightarrow>
      fst (impute m s1) ! i = fst (impute m s2) ! i) \<and>
   (i < 2 \<and> i < length s \<longrightarrow> fst (impute m s) ! i = s ! i) \<and>
   (2 \<le> i \<and> i < length s \<longrightarrow>
      fst (impute m s) ! i =
        (let before = impute m (take i s);
             guess = predict (snd before) [fst before ! (i - 2), fst before ! (i - 1)];
             base = (if s ! i \<notin> set ''ACGT'' \<and> guess \<noteq> CHR ''N'' then guess else s ! i)
         in if base = CHR ''U'' then CHR ''T'' else base))"
  using impute_agree [of i s1 s2 m] impute_first_two [of i s m] impute_at [of i s m]
  by blast

theorem impute_causal_witness:
  "fst (impute [(''AC'', Counts 0 0 5 0)] ''ACNTT'') ! 2 =
   fst (impute [(''AC'', Counts 0 0 5 0)] ''ACNGA'') ! 2 \<and>
   fst (impute [(''AC'', Counts 0 0 5 0)] ''ACNTT'') ! 1 = CHR ''C'' \<and>
   fst (impute [(''AC'', Counts 0 0 5 0)] ''ACNTT'') ! 2 =
     predict (snd (impute [(''AC'', Counts 0 0 5 0)] ''AC'')) ''AC'' \<and>
   predict (snd (impute [(''AC'', Counts 0 0 5 0)] ''AC'')) ''AC'' = CHR ''G''"
proof -
  note c = impute_causal [of 2 "''ACNTT''" "''ACNGA''" "[(''AC'', Counts 0 0 5 0)]" "''ACNTT''"]
  note d = impute_causal [of 1 "''ACNTT''" "''ACNGA''" "[(''AC'', Counts 0 0 5 0)]" "''ACNTT''"]
  have ag: "\<forall>j\<le>2. ''ACNTT'' ! j = ''ACNGA'' ! j"
  proof (intro allI impI)
    fix j :: nat assume "j \<le> 2"
    then have "j = 0 \<or> j = 1 \<or> j = 2" by auto
    then show "''ACNTT'' ! j = ''ACNGA'' ! j" by auto
  qed
  have g': "predict [(''AC'', Counts 0 0 5 0)] ''AC'' = CHR ''G''"
    by code_simp
  then have g: "predict (snd (impute [(''AC'', Counts 0 0 5 0)] ''AC'')) ''AC'' = CHR ''G''"
    by (simp only: impute_AC snd_conv)
  from c ag have 1: "fst (impute [(''AC'', Counts 0 0 5 0)] ''ACNTT'') ! 2 =
      fst (impute [(''AC'', Counts 0 0 5 0)] ''ACNGA'') ! 2"
    by simp
  from d have 2: "fst (impute [(''AC'', Counts 0 0 5 0)] ''ACNTT'') ! 1 = CHR ''C''"
    by simp
  from c have "fst (impute [(''AC'', Counts 0 0 5 0)] ''ACNTT'') ! 2 =
      (let before = impute [(''AC'', Counts 0 0 5 0)] (take 2 ''ACNTT'');
           guess = predict (snd before) [fst before ! (2 - 2), fst before ! (2 - 1)];
           base = (if ''ACNTT'' ! 2 \<notin> set ''ACGT'' \<and> guess \<noteq> CHR ''N'' then guess else ''ACNTT'' ! 2)
       in if base = CHR ''U'' then CHR ''T'' else base)"
    by simp
  then have 3: "fst (impute [(''AC'', Counts 0 0 5 0)] ''ACNTT'') ! 2 =
     predict (snd (impute [(''AC'', Counts 0 0 5 0)] ''AC'')) ''AC''"
    by (simp add: impute_AC g' Let_def)
  from 1 2 3 g show ?thesis by simp
qed

text \<open>
  C4 as stated fails: the residue produced at \<open>i\<close> is not a function of the residues
  strictly before \<open>i\<close> alone. ACA and ACG agree before position 2 and come out as A and
  G there; ACN and ACU agree before position 2, both hold a residue outside A, C, G, T
  at 2, and come out as N and T.
\<close>

theorem impute_depends_on_own_residue:
  "take 2 ''ACA'' = take 2 ''ACG'' \<and>
   fst (impute [] ''ACA'') ! 2 = CHR ''A'' \<and> fst (impute [] ''ACG'') ! 2 = CHR ''G'' \<and>
   take 2 ''ACN'' = take 2 ''ACU'' \<and>
   fst (impute [] ''ACN'') ! 2 = CHR ''N'' \<and> fst (impute [] ''ACU'') ! 2 = CHR ''T''"
  by (simp add: impute_ACA impute_ACG impute_ACN impute_ACU)

text \<open>
  C10. A residue of the input that is one of A, C, G, T comes out unchanged at its
  position, for every input and every starting model.
\<close>

theorem impute_keeps_canonical:
  "i < length raw \<Longrightarrow> raw ! i \<in> set ''ACGT'' \<Longrightarrow> fst (impute model raw) ! i = raw ! i"
  by (simp add: impute_def impute_loop_canonical)

theorem impute_keeps_canonical_witness:
  "fst (impute [(''AC'', Counts 0 0 5 0)] ''ACUG'') ! 3 = CHR ''G''"
  using impute_keeps_canonical [of 3 "''ACUG''" "[(''AC'', Counts 0 0 5 0)]"] by simp

text \<open>
  C9. A sequence of fewer than two residues is returned as it is, and the model with it:
  the table is the same, entry for entry.
\<close>

theorem impute_short:
  "length raw < 2 \<Longrightarrow> impute model raw = (raw, model)"
  by (simp add: impute_def)

theorem impute_short_witness:
  "impute [(''AC'', Counts 0 0 5 0)] ''U'' = (''U'', [(''AC'', Counts 0 0 5 0)])"
  using impute_short [of "''U''" "[(''AC'', Counts 0 0 5 0)]"] by simp

subsection \<open>The records that save writes after a run\<close>

lemma keys_store: "fst ` set (store t k arr) = insert k (fst ` set t)"
  by (simp add: store_def dom_update)

lemma keys_update: "fst ` set (update t ctx b) \<subseteq> insert ctx (fst ` set t)"
  by (auto simp add: update_def Let_def keys_store)

lemma records_of_sound:
  assumes "(ctx, base, n) \<in> set (records_of k arr)"
  shows "ctx = k \<and> base \<in> set ''ACGT'' \<and> 0 < n \<and> n = slot arr (index base)"
proof -
  from assms have "(ctx, base, n) \<in>
      (\<lambda>i. (k, base_from_index i, slot arr i)) ` {i \<in> set [0, 1, 2, 3]. slot arr i > 0}"
    unfolding records_of_def by (simp only: set_map set_filter)
  then obtain i where i: "i \<in> {0, 1, 2, 3}" "slot arr i > 0"
    and eq: "ctx = k" "base = base_from_index i" "n = slot arr i"
    by auto
  from i(1) have "base_from_index i \<in> set ''ACGT'' \<and> index (base_from_index i) = i"
    by (auto simp add: base_from_index_def index_def)
  with i eq show ?thesis by simp
qed

lemma save_records_sound:
  assumes "(ctx, base, n) \<in> set (save_records t)"
  shows "\<exists>arr. (ctx, arr) \<in> set t \<and> base \<in> set ''ACGT'' \<and> 0 < n \<and> n = slot arr (index base)"
proof -
  from assms obtain k arr where "(k, arr) \<in> set t" "(ctx, base, n) \<in> set (records_of k arr)"
    by (auto simp add: save_records_def)
  with records_of_sound [of ctx base n k arr] show ?thesis by auto
qed

lemma impute_NNA: "impute [] ''NNA'' = (''NNA'', [(''NN'', Counts 1 0 0 0)])"
  by code_simp

lemma save_records_NN: "save_records [(''NN'', Counts 1 0 0 0)] = [(''NN'', CHR ''A'', 1)]"
  by code_simp

lemma save_NN: "save [(''NN'', Counts 1 0 0 0)] = ''NN A 1'' @ [CHR 0x0A]"
  by code_simp

lemma keys_impute_step_subset:
  "fst ` set (snd (impute_step k s m)) \<subseteq> insert [s ! (k - 2), s ! (k - 1)] (fst ` set m)"
proof -
  obtain b where "snd (impute_step k s m) = update m [s ! (k - 2), s ! (k - 1)] b"
    by (simp add: impute_step_def Let_def split_def)
  with keys_update [of m "[s ! (k - 2), s ! (k - 1)]" b] show ?thesis by simp
qed

lemma keys_impute_loop_contexts:
  assumes "2 \<le> k" "key \<in> fst ` set (snd (impute_loop k s m))"
  shows "key \<in> fst ` set m \<or>
         (\<exists>i. k \<le> i \<and> i < length s \<and>
              key = [fst (impute_loop k s m) ! (i - 2), fst (impute_loop k s m) ! (i - 1)])"
  using assms
proof (induction k s m rule: impute_loop.induct)
  case (1 k s m)
  show ?case
  proof (cases "k < length s")
    case True
    obtain s1 m1 where st: "impute_step k s m = (s1, m1)" by (cases "impute_step k s m")
    have len: "length s1 = length s"
      using st length_impute_step [of k s m] by simp
    have eq: "impute_loop k s m = impute_loop (k + 1) s1 m1"
      using True st by (subst impute_loop.simps) simp
    let ?out = "fst (impute_loop (k + 1) s1 m1)"
    from "1.prems"(2) have "key \<in> fst ` set (snd (impute_loop (k + 1) s1 m1))"
      by (simp only: eq)
    with "1.IH" [OF True st [symmetric]] "1.prems"(1)
    have "key \<in> fst ` set m1 \<or>
        (\<exists>i. k + 1 \<le> i \<and> i < length s1 \<and> key = [?out ! (i - 2), ?out ! (i - 1)])"
      by simp
    then show ?thesis
    proof
      assume "key \<in> fst ` set m1"
      with keys_impute_step_subset [of k s m] st
      have "key = [s ! (k - 2), s ! (k - 1)] \<or> key \<in> fst ` set m" by auto
      then show ?thesis
      proof
        assume key: "key = [s ! (k - 2), s ! (k - 1)]"
        have "take (Suc k) ?out = take (Suc k) s1"
          by (simp add: impute_loop_take_before)
        then have o: "?out ! j = s1 ! j" if "j < Suc k" for j
          using that by (metis nth_take)
        have s: "s1 ! j = s ! j" if "j \<noteq> k" for j
          using impute_step_nth_other [OF that, of s m] st by simp
        from "1.prems"(1) have r: "k - 2 < Suc k" "k - 1 < Suc k" "k - 2 \<noteq> k" "k - 1 \<noteq> k"
          by simp_all
        have "?out ! (k - 2) = s ! (k - 2)" "?out ! (k - 1) = s ! (k - 1)"
          using o [OF r(1)] o [OF r(2)] s [OF r(3)] s [OF r(4)] by simp_all
        with key have "key = [?out ! (k - 2), ?out ! (k - 1)]" by simp
        with True have "k \<le> k \<and> k < length s \<and> key = [?out ! (k - 2), ?out ! (k - 1)]"
          by simp
        then show ?thesis
          unfolding eq by blast
      next
        assume "key \<in> fst ` set m"
        then show ?thesis ..
      qed
    next
      assume "\<exists>i. k + 1 \<le> i \<and> i < length s1 \<and> key = [?out ! (i - 2), ?out ! (i - 1)]"
      then obtain i where "k + 1 \<le> i" "i < length s1" "key = [?out ! (i - 2), ?out ! (i - 1)]"
        by blast
      then have "k \<le> i \<and> i < length s \<and> key = [?out ! (i - 2), ?out ! (i - 1)]"
        using len by simp
      then show ?thesis
        unfolding eq by blast
    qed
  next
    case False
    then have "impute_loop k s m = (s, m)"
      by (subst impute_loop.simps) simp
    with "1.prems"(2) show ?thesis by simp
  qed
qed

lemma keys_impute_contexts:
  assumes "key \<in> fst ` set (snd (impute m raw))"
  shows "key \<in> fst ` set m \<or>
         (\<exists>i. 2 \<le> i \<and> i < length raw \<and>
              key = [fst (impute m raw) ! (i - 2), fst (impute m raw) ! (i - 1)])"
proof (cases "2 \<le> length raw")
  case True
  then have eq: "impute m raw = impute_loop 2 raw m" by (simp add: impute_def)
  from assms show ?thesis
    unfolding eq by (rule keys_impute_loop_contexts [OF order_refl])
next
  case False
  then have "impute m raw = (raw, m)" by (simp add: impute_def)
  with assms show ?thesis by simp
qed

lemma impute_canonical_input:
  assumes "set raw \<subseteq> set ''ACGT''"
  shows "fst (impute m raw) = raw"
proof (rule nth_equalityI)
  show "length (fst (impute m raw)) = length raw" by (rule impute_length)
  show "fst (impute m raw) ! i = raw ! i" if "i < length (fst (impute m raw))" for i
  proof -
    from that have i: "i < length raw" by (simp add: impute_length)
    then have "raw ! i \<in> set raw" by simp
    with assms have "raw ! i \<in> set ''ACGT''" by blast
    with i show ?thesis
      by (simp add: impute_def impute_loop_canonical del: set_simps list.set)
  qed
qed

text \<open>
  C2, as the code has it. After a run of the loop from any starting model on any
  sequence, every record that \<open>save\<close> writes has a base among A, C, G, T and a count
  above zero, and its context is a context of the starting model or the two-character
  string of two adjacent residues of the corrected sequence (those before a position
  from the third on). So the contexts have two characters when those of the starting
  model have, and are over A, C, G, T when those of the starting model and the corrected
  sequence are; a sequence over A, C, G, T is its own corrected sequence.
\<close>

theorem save_records_wellformed:
  assumes "(ctx, base, n) \<in> set (save_records (snd (impute model raw)))"
  shows "base \<in> set ''ACGT'' \<and> 0 < n \<and>
     (ctx \<in> fst ` set model \<or>
      (\<exists>i. 2 \<le> i \<and> i < length raw \<and>
           ctx = [fst (impute model raw) ! (i - 2), fst (impute model raw) ! (i - 1)])) \<and>
     ((\<forall>k\<in>fst ` set model. length k = 2) \<longrightarrow> length ctx = 2) \<and>
     ((\<forall>k\<in>fst ` set model. length k = 2 \<and> set k \<subseteq> set ''ACGT'') \<and>
        set (fst (impute model raw)) \<subseteq> set ''ACGT'' \<longrightarrow>
        length ctx = 2 \<and> set ctx \<subseteq> set ''ACGT'') \<and>
     (set raw \<subseteq> set ''ACGT'' \<longrightarrow> fst (impute model raw) = raw)"
proof -
  let ?out = "fst (impute model raw)"
  from save_records_sound [OF assms] obtain arr
    where rec: "(ctx, arr) \<in> set (snd (impute model raw))" "base \<in> set ''ACGT''" "0 < n"
    by blast
  from rec(1) have "ctx \<in> fst ` set (snd (impute model raw))" by force
  from keys_impute_contexts [OF this]
  have origin: "ctx \<in> fst ` set model \<or>
      (\<exists>i. 2 \<le> i \<and> i < length raw \<and> ctx = [?out ! (i - 2), ?out ! (i - 1)])" .
  have len: "length ctx = 2" if "\<forall>k\<in>fst ` set model. length k = 2"
    using origin that by auto
  have alpha: "length ctx = 2 \<and> set ctx \<subseteq> set ''ACGT''"
    if m: "\<forall>k\<in>fst ` set model. length k = 2 \<and> set k \<subseteq> set ''ACGT''"
      and o: "set ?out \<subseteq> set ''ACGT''"
    using origin
  proof
    assume "ctx \<in> fst ` set model"
    with m show ?thesis by blast
  next
    assume "\<exists>i. 2 \<le> i \<and> i < length raw \<and> ctx = [?out ! (i - 2), ?out ! (i - 1)]"
    then obtain i where i: "2 \<le> i" "i < length raw" "ctx = [?out ! (i - 2), ?out ! (i - 1)]"
      by blast
    then have "i - 2 < length ?out" "i - 1 < length ?out"
      by (simp_all add: impute_length)
    then have "?out ! (i - 2) \<in> set ?out" "?out ! (i - 1) \<in> set ?out"
      by (simp_all only: nth_mem)
    with o have "?out ! (i - 2) \<in> set ''ACGT''" "?out ! (i - 1) \<in> set ''ACGT''"
      by blast+
    with i(3) show ?thesis by auto
  qed
  from rec(2,3) origin len alpha impute_canonical_input [of raw model]
  show ?thesis by blast
qed

theorem save_records_wellformed_witness:
  "CHR ''A'' \<in> set ''ACGT'' \<and> (0 :: size_t) < 1 \<and>
   (\<exists>i. 2 \<le> i \<and> i < length ''NNA'' \<and>
        ''NN'' = [fst (impute [] ''NNA'') ! (i - 2), fst (impute [] ''NNA'') ! (i - 1)]) \<and>
   length ''NN'' = 2 \<and>
   set ''AC'' \<subseteq> set ''ACGT'' \<and> fst (impute [] ''ACG'') = ''ACG''"
proof -
  have "(''NN'', CHR ''A'', 1) \<in> set (save_records (snd (impute [] ''NNA'')))"
    by (simp only: impute_NNA snd_conv save_records_NN list.set insertI1)
  from save_records_wellformed [OF this]
  have 1: "CHR ''A'' \<in> set ''ACGT'' \<and> (0 :: size_t) < 1 \<and>
     (\<exists>i. 2 \<le> i \<and> i < length ''NNA'' \<and>
          ''NN'' = [fst (impute [] ''NNA'') ! (i - 2), fst (impute [] ''NNA'') ! (i - 1)]) \<and>
     length ''NN'' = 2"
    by simp
  have "save_records [(''AC'', Counts 0 0 1 0)] = [(''AC'', CHR ''G'', 1)]"
    by code_simp
  then have "(''AC'', CHR ''G'', 1) \<in> set (save_records (snd (impute [] ''ACG'')))"
    by (simp only: impute_ACG snd_conv list.set insertI1)
  from save_records_wellformed [OF this]
  have 2: "set ''AC'' \<subseteq> set ''ACGT'' \<and> fst (impute [] ''ACG'') = ''ACG''"
    by (simp add: impute_ACG)
  from 1 2 show ?thesis by simp
qed

text \<open>
  C2 as stated fails on the context: the sequence NNA, run on the empty model, makes
  \<open>save\<close> write the record \<open>NN A 1\<close>, whose context is not over A, C, G, T.
\<close>

theorem save_context_not_canonical:
  "save_records (snd (impute [] ''NNA'')) = [(''NN'', CHR ''A'', 1)] \<and>
   save (snd (impute [] ''NNA'')) = ''NN A 1'' @ [CHR 0x0A] \<and>
   \<not> set ''NN'' \<subseteq> set ''ACGT''"
proof -
  have "\<not> set ''NN'' \<subseteq> set ''ACGT''" by simp
  then show ?thesis
    by (simp only: impute_NNA snd_conv save_records_NN save_NN simp_thms)
qed

section \<open>Properties of the GC content\<close>

lemma of_char_toupper:
  "(of_char (toupper c) :: nat) =
     (if 97 \<le> (of_char c :: nat) \<and> (of_char c :: nat) \<le> 122 then of_char c - 32 else of_char c)"
  by (auto simp add: toupper_def)

lemma char_eq_code: "c = d \<longleftrightarrow> (of_char c :: nat) = of_char d"
  by (metis char_of_char)

lemma toupper_eq_iff:
  "toupper c = CHR ''G'' \<longleftrightarrow> c = CHR ''G'' \<or> c = CHR ''g''"
  "toupper c = CHR ''C'' \<longleftrightarrow> c = CHR ''C'' \<or> c = CHR ''c''"
  "toupper c = CHR ''A'' \<longleftrightarrow> c = CHR ''A'' \<or> c = CHR ''a''"
  "toupper c = CHR ''T'' \<longleftrightarrow> c = CHR ''T'' \<or> c = CHR ''t''"
  "toupper c = CHR ''U'' \<longleftrightarrow> c = CHR ''U'' \<or> c = CHR ''u''"
  unfolding char_eq_code [of "toupper c"] char_eq_code [of c] of_char_toupper
  by (simp_all; arith)+


lemma gc_loop_counts:
  "gc_loop s gc total_n =
     (gc + length (filter (\<lambda>c. c \<in> set ''GCgc'') s),
      total_n + length (filter (\<lambda>c. c \<in> set ''ATGCUatgcu'') s))"
proof (induction s arbitrary: gc total_n)
  case Nil
  show ?case by simp
next
  case (Cons c cs)
  have g: "toupper c = CHR ''G'' \<or> toupper c = CHR ''C'' \<longleftrightarrow> c \<in> set ''GCgc''"
    by (auto simp add: toupper_eq_iff)
  have n: "toupper c = CHR ''A'' \<or> toupper c = CHR ''T'' \<or> toupper c = CHR ''G''
             \<or> toupper c = CHR ''C'' \<or> toupper c = CHR ''U'' \<longleftrightarrow> c \<in> set ''ATGCUatgcu''"
    by (auto simp add: toupper_eq_iff)
  show ?case
    unfolding gc_loop.simps Let_def g n Cons.IH
    by simp
qed

lemma gc_subset:
  "length (filter (\<lambda>c. c \<in> set ''GCgc'') s) \<le> length (filter (\<lambda>c. c \<in> set ''ATGCUatgcu'') s)"
proof (induction s)
  case Nil
  show ?case by simp
next
  case (Cons c cs)
  have "c \<in> set ''GCgc'' \<Longrightarrow> c \<in> set ''ATGCUatgcu''" by auto
  with Cons show ?case by (simp del: set_simps)
qed

text \<open>
  C7. \<open>gc_content\<close> always returns a number (the division is only reached with a
  non-zero divisor): 0 when no character of the input is one of A, T, G, C, U in either
  case, and otherwise the number of characters among G, C (either case) divided by the
  number of characters among A, T, G, C, U (either case). The result lies between 0 and 1.
\<close>

theorem gc_content_spec:
  "gc_content s =
     Some (if length (filter (\<lambda>c. c \<in> set ''ATGCUatgcu'') s) = 0 then 0
           else of_nat (length (filter (\<lambda>c. c \<in> set ''GCgc'') s)) /
                of_nat (length (filter (\<lambda>c. c \<in> set ''ATGCUatgcu'') s))) \<and>
   (\<exists>r. gc_content s = Some r \<and> 0 \<le> r \<and> r \<le> 1)"
proof -
  let ?g = "length (filter (\<lambda>c. c \<in> set ''GCgc'') s)"
  let ?n = "length (filter (\<lambda>c. c \<in> set ''ATGCUatgcu'') s)"
  have loop: "gc_loop s 0 0 = (?g, ?n)"
    by (simp only: gc_loop_counts add_0)
  have val: "gc_content s = Some (if ?n = 0 then 0 else of_nat ?g / of_nat ?n)"
    unfolding gc_content_def loop divide_double_def by simp
  have "?g \<le> ?n" by (rule gc_subset)
  then have "(0::rat) \<le> (if ?n = 0 then 0 else of_nat ?g / of_nat ?n)
     \<and> (if ?n = 0 then 0 else of_nat ?g / of_nat ?n) \<le> (1::rat)"
    by (simp add: divide_le_eq_1)
  with val show ?thesis by blast
qed

text \<open>
  C1. On the input ABCDXYZ the function counts A and C in the denominator and C in the
  numerator, and returns one half, not one quarter.
\<close>

theorem gc_content_ABCDXYZ:
  "gc_content ''ABCDXYZ'' = Some (1 / 2) \<and> gc_content ''ABCDXYZ'' \<noteq> Some (1 / 4)"
  by code_simp

section \<open>Properties of the fetch\<close>

lemma retry_loop_3: "retry_loop p 3 st = st"
  by (subst retry_loop.simps) simp

lemma retry_loop_step:
  "attempt < 3 \<Longrightarrow>
   retry_loop p attempt st =
     (if code (p attempt) = CURLE_OK
      then st\<lparr>res := code (p attempt),
              buffer := foldl WriteCallback (buffer st) (chunks (p attempt)),
              http_code := response_code (p attempt),
              performed := performed st + 1\<rparr>
      else retry_loop p (attempt + 1)
             (st\<lparr>res := code (p attempt),
                 buffer := foldl WriteCallback (buffer st) (chunks (p attempt)),
                 http_code := response_code (p attempt),
                 performed := performed st + 1,
                 slept := slept st @ [100 * 2 ^ attempt]\<rparr>))"
  by (subst retry_loop.simps) (simp add: Let_def)

lemma foldl_WriteCallback: "foldl WriteCallback s cs = s @ concat cs"
  by (induction cs arbitrary: s) (simp_all add: WriteCallback_def)

lemma retry_loop_at_0:
  "retry_loop p 0 st =
     (if code (p 0) = CURLE_OK
      then st\<lparr>res := code (p 0), buffer := buffer st @ concat (chunks (p 0)),
              http_code := response_code (p 0), performed := performed st + 1\<rparr>
      else retry_loop p (Suc 0)
             (st\<lparr>res := code (p 0), buffer := buffer st @ concat (chunks (p 0)),
                 http_code := response_code (p 0), performed := performed st + 1,
                 slept := slept st @ [100]\<rparr>))"
  by (subst retry_loop_step) (simp_all add: foldl_WriteCallback)

lemma retry_loop_at_1:
  "retry_loop p (Suc 0) st =
     (if code (p (Suc 0)) = CURLE_OK
      then st\<lparr>res := code (p (Suc 0)), buffer := buffer st @ concat (chunks (p (Suc 0))),
              http_code := response_code (p (Suc 0)), performed := performed st + 1\<rparr>
      else retry_loop p 2
             (st\<lparr>res := code (p (Suc 0)), buffer := buffer st @ concat (chunks (p (Suc 0))),
                 http_code := response_code (p (Suc 0)), performed := performed st + 1,
                 slept := slept st @ [200]\<rparr>))"
  by (subst retry_loop_step) (simp_all add: foldl_WriteCallback numeral_2_eq_2)

lemma retry_loop_at_2:
  "retry_loop p 2 st =
     (if code (p 2) = CURLE_OK
      then st\<lparr>res := code (p 2), buffer := buffer st @ concat (chunks (p 2)),
              http_code := response_code (p 2), performed := performed st + 1\<rparr>
      else st\<lparr>res := code (p 2), buffer := buffer st @ concat (chunks (p 2)),
              http_code := response_code (p 2), performed := performed st + 1,
              slept := slept st @ [400]\<rparr>)"
  by (subst retry_loop_step) (simp_all add: foldl_WriteCallback retry_loop_3)

lemmas retry_loop_unroll = retry_loop_at_0 retry_loop_at_1 retry_loop_at_2

lemma fetch_remote_three_failures:
  assumes "code (p 0) \<noteq> CURLE_OK" "code (p 1) \<noteq> CURLE_OK" "code (p 2) \<noteq> CURLE_OK"
  shows "res (fetch_remote p) \<noteq> CURLE_OK \<and> performed (fetch_remote p) = 3 \<and>
         slept (fetch_remote p) = [100, 200, 400]"
  using assms by (simp add: fetch_remote_def retry_loop_unroll)

lemma fetch_sequence_three_failures:
  assumes "local_file w = Absent" "curl_init w"
    and "code (curl_easy_perform w 0) \<noteq> CURLE_OK" "code (curl_easy_perform w 1) \<noteq> CURLE_OK"
      "code (curl_easy_perform w 2) \<noteq> CURLE_OK"
  shows "fetch_sequence w = Inl Network_error"
  using assms(1,2) fetch_remote_three_failures [OF assms(3-5)]
  by (simp add: fetch_sequence_def Let_def)

lemma fetch_sequence_third_attempt:
  assumes "local_file w = Absent" "curl_init w"
    and "code (curl_easy_perform w 0) \<noteq> CURLE_OK" "code (curl_easy_perform w 1) \<noteq> CURLE_OK"
    and "code (curl_easy_perform w 2) = CURLE_OK" "response_code (curl_easy_perform w 2) = 200"
  shows "fetch_sequence w =
     Inr (concat (chunks (curl_easy_perform w 0)) @ concat (chunks (curl_easy_perform w 1))
          @ concat (chunks (curl_easy_perform w 2)))"
  using assms
  by (simp add: fetch_sequence_def fetch_remote_def Let_def retry_loop_unroll)

lemma performed_retry_loop: "performed (retry_loop p attempt st) \<le> performed st + (3 - attempt)"
proof (induction p attempt st rule: retry_loop.induct)
  case (1 p attempt st)
  show ?case
  proof (cases "attempt < 3")
    case True
    show ?thesis
    proof (cases "code (p attempt) = CURLE_OK")
      case ok: True
      with True show ?thesis by (simp add: retry_loop_step)
    next
      case False
      let ?st = "st\<lparr>res := code (p attempt),
              buffer := foldl WriteCallback (buffer st) (chunks (p attempt)),
              http_code := response_code (p attempt),
              performed := performed st + 1\<rparr>"
      have "performed (retry_loop p (attempt + 1) (?st\<lparr>slept := slept ?st @ [100 * 2 ^ attempt]\<rparr>))
            \<le> performed (?st\<lparr>slept := slept ?st @ [100 * 2 ^ attempt]\<rparr>) + (3 - (attempt + 1))"
        using False by (intro "1.IH" [OF True refl refl]) simp
      with True False show ?thesis by (simp add: retry_loop_step)
    qed
  next
    case False
    then show ?thesis by (subst retry_loop.simps) simp
  qed
qed

lemma performed_fetch_remote: "performed (fetch_remote p) \<le> 3"
  using performed_retry_loop
    [of p 0 "\<lparr>res = CURLE_OK, buffer = [], http_code = 0, performed = 0, slept = []\<rparr>"]
  by (simp add: fetch_remote_def)

text \<open>
  C6. On that network the first two attempts fail and the third succeeds, and
  \<open>fetch_sequence\<close> returns the bytes of the broken first transfer followed by the
  body of the third: the buffer is never emptied between attempts. (With three failures
  it fails with the network error, after three transfers: see
  \<open>fetch_sequence_three_failures\<close> and \<open>fetch_remote_three_failures\<close>.)
\<close>

theorem fetch_sequence_keeps_partial_data:
  "code (flaky 0) \<noteq> CURLE_OK \<and> code (flaky 1) \<noteq> CURLE_OK \<and> code (flaky 2) = CURLE_OK \<and>
   response_code (flaky 2) = 200 \<and>
   concat (chunks (flaky 2)) = ''>X'' @ [CHR 0x0A] @ ''ACGT'' @ [CHR 0x0A] \<and>
   fetch_sequence \<lparr>local_file = Absent, curl_init = True, curl_easy_perform = flaky\<rparr> =
     Inr (''>X'' @ [CHR 0x0A] @ ''AC'' @ ''>X'' @ [CHR 0x0A] @ ''ACGT'' @ [CHR 0x0A]) \<and>
   fetch_sequence \<lparr>local_file = Absent, curl_init = True, curl_easy_perform = flaky\<rparr> \<noteq>
     Inr (concat (chunks (flaky 2)))"
proof -
  have c: "code (flaky 0) \<noteq> CURLE_OK" "code (flaky 1) \<noteq> CURLE_OK" "code (flaky 2) = CURLE_OK"
    "response_code (flaky 2) = 200"
    by (simp_all add: flaky_def CURLE_OK_def)
  have "fetch_sequence \<lparr>local_file = Absent, curl_init = True, curl_easy_perform = flaky\<rparr> =
     Inr (concat (chunks (flaky 0)) @ concat (chunks (flaky 1)) @ concat (chunks (flaky 2)))"
    using c fetch_sequence_third_attempt
      [of "\<lparr>local_file = Absent, curl_init = True, curl_easy_perform = flaky\<rparr>"]
    by simp
  with c show ?thesis by (simp add: flaky_def)
qed

section \<open>Saving and loading the model\<close>

subsection \<open>Decimal digits\<close>

lemma of_char_digit_char: "d < 10 \<Longrightarrow> (of_char (digit_char d) :: nat) = 48 + d"
  by (simp add: digit_char_def)

lemma digit_char_props:
  assumes "d < 10"
  shows "isdigit (digit_char d)" "digit_val (digit_char d) = d" "\<not> isspace (digit_char d)"
    "digit_char d \<noteq> CHR ''-''" "digit_char d \<noteq> CHR ''+''"
  using assms
  by (simp_all add: isdigit_def digit_val_def isspace_def char_eq_code [of "digit_char d"]
      of_char_digit_char)

lemma show_nat_digits: "show_nat n \<noteq> [] \<and> (\<forall>c\<in>set (show_nat n). isdigit c)"
proof (induction n rule: show_nat.induct)
  case (1 n)
  show ?case
  proof (cases "n < 10")
    case True
    then show ?thesis
      by (subst (1 2) show_nat.simps) (simp add: digit_char_props)
  next
    case False
    with "1.IH" have "\<forall>c\<in>set (show_nat (n div 10)). isdigit c" by simp
    moreover have "isdigit (digit_char (n mod 10))" by (simp add: digit_char_props)
    ultimately show ?thesis
      using False by (subst (1 2) show_nat.simps) simp
  qed
qed

lemma dec_value_snoc: "dec_value (ds @ [c]) = 10 * dec_value ds + digit_val c"
  by (simp add: dec_value_def)

lemma dec_value_show_nat: "dec_value (show_nat n) = n"
proof (induction n rule: show_nat.induct)
  case (1 n)
  show ?case
  proof (cases "n < 10")
    case True
    then show ?thesis
      by (subst show_nat.simps) (simp add: dec_value_def digit_char_props)
  next
    case False
    with "1.IH" have "dec_value (show_nat (n div 10)) = n div 10" by simp
    then show ?thesis
      using False by (subst show_nat.simps) (simp add: dec_value_snoc digit_char_props)
  qed
qed

lemma hd_show_nat: "isdigit (hd (show_nat n))"
  using show_nat_digits [of n] by (cases "show_nat n") simp_all

lemma isdigit_not_others: "isdigit c \<Longrightarrow> \<not> isspace c \<and> c \<noteq> CHR ''-'' \<and> c \<noteq> CHR ''+''"
  by (auto simp add: isdigit_def isspace_def)

subsection \<open>Reading back one line\<close>

lemma isspace_simps: "isspace (CHR '' '')" "isspace (CHR 0x0A)" "\<not> isdigit (CHR 0x0A)"
  by (simp_all add: isspace_def isdigit_def)

lemma read_string_token:
  assumes "ctx \<noteq> []" "\<forall>c\<in>set ctx. \<not> isspace c" "isspace d"
  shows "read_string (ctx @ d # rest) = Some (ctx, d # rest)"
proof -
  from assms(1,2) have "\<not> isspace (hd ctx)" by (cases ctx) simp_all
  with assms(1) have "skipws (ctx @ d # rest) = ctx @ d # rest"
    by (cases ctx) (simp_all add: skipws_def)
  moreover have "takeWhile (\<lambda>c. \<not> isspace c) (ctx @ d # rest) = ctx"
    using assms(2,3) by (simp add: takeWhile_append2)
  moreover have "dropWhile (\<lambda>c. \<not> isspace c) (ctx @ d # rest) = d # rest"
    using assms(2,3) by (simp add: dropWhile_append2)
  ultimately show ?thesis
    using assms(1) by (simp add: read_string_def)
qed

lemma read_char_after_space:
  "isspace d \<Longrightarrow> \<not> isspace b \<Longrightarrow> read_char (d # b # rest) = Some (b, rest)"
  by (simp add: read_char_def skipws_def)

lemma read_size_t_shown:
  assumes "isspace d" "isspace e"
  shows "read_size_t (d # show_size_t n @ e # rest) = Some (n, e # rest)"
proof -
  let ?ds = "show_nat (unat n)"
  have ne: "?ds \<noteq> []" and digs: "\<forall>c\<in>set ?ds. isdigit c"
    using show_nat_digits [of "unat n"] by simp_all
  have h: "isdigit (hd ?ds)" by (rule hd_show_nat)
  then have h': "\<not> isspace (hd ?ds)" "hd ?ds \<noteq> CHR ''-''" "hd ?ds \<noteq> CHR ''+''"
    using isdigit_not_others by blast+
  have e: "\<not> isdigit e"
    using assms(2) isdigit_not_others by blast
  have sk: "skipws (d # ?ds @ e # rest) = ?ds @ e # rest"
    using assms(1) ne h'(1) by (cases ?ds) (simp_all add: skipws_def)
  have hd: "hd (?ds @ e # rest) = hd ?ds"
    using ne by simp
  have tk: "takeWhile isdigit (?ds @ e # rest) = ?ds"
    using digs e by (simp add: takeWhile_append2)
  have dr: "dropWhile isdigit (?ds @ e # rest) = e # rest"
    using digs e by (simp add: dropWhile_append2)
  have v: "dec_value ?ds = unat n" by (rule dec_value_show_nat)
  have bound: "unat n < 2 ^ 64"
    using unsigned_less [of n, where ?'a = nat] by simp
  show ?thesis
    using ne h' bound
    by (simp add: read_size_t_def show_size_t_def sk Let_def tk dr v)
qed


subsection \<open>Reading back the file\<close>

lemma load_loop_Nil: "load_loop t [] = t"
  by (subst load_loop.simps) (simp add: read_string_def skipws_def)

lemma read_string_skip: "isspace d \<Longrightarrow> read_string (d # s) = read_string s"
  by (simp add: read_string_def skipws_def)

lemma load_loop_skip: "isspace d \<Longrightarrow> load_loop t (d # s) = load_loop t s"
  by (subst (1 2) load_loop.simps) (simp add: read_string_skip)

lemma load_loop_line:
  assumes "ctx \<noteq> []" "\<forall>c\<in>set ctx. \<not> isspace c" "base \<in> set ''ACGT''"
  shows "load_loop t (save_line (ctx, base, n) @ rest) =
         load_loop (store t ctx (set_slot (entry t ctx) (index base) n)) rest"
proof -
  let ?sp = "CHR '' ''" and ?nl = "CHR 0x0A"
  have b: "\<not> isspace base" "index base \<ge> 0"
    using assms(3) by (auto simp add: isspace_def index_def)
  have line: "save_line (ctx, base, n) @ rest = ctx @ ?sp # base # ?sp # show_size_t n @ ?nl # rest"
    by (simp add: save_line_def)
  have 1: "read_string (ctx @ ?sp # base # ?sp # show_size_t n @ ?nl # rest)
            = Some (ctx, ?sp # base # ?sp # show_size_t n @ ?nl # rest)"
    using assms(1,2) by (intro read_string_token) (simp_all add: isspace_simps)
  have 2: "read_char (?sp # base # ?sp # show_size_t n @ ?nl # rest)
            = Some (base, ?sp # show_size_t n @ ?nl # rest)"
    using b(1) by (intro read_char_after_space) (simp_all add: isspace_simps)
  have 3: "read_size_t (?sp # show_size_t n @ ?nl # rest) = Some (n, ?nl # rest)"
    by (intro read_size_t_shown) (simp_all add: isspace_simps)
  have "load_loop t (save_line (ctx, base, n) @ rest) =
        load_loop (store t ctx (set_slot (entry t ctx) (index base) n)) (?nl # rest)"
    unfolding line
    by (subst load_loop.simps) (simp add: 1 2 3 b(2) del: list.set set_simps)
  then show ?thesis
    by (simp add: load_loop_skip isspace_simps)
qed

text \<open>
  Reading a saved file is the sequence of its assignments
  \<open>table_[ctx][idx] = count\<close>, one per record.
\<close>

lemma load_loop_records:
  assumes "\<forall>(ctx, base, n)\<in>set rs. ctx \<noteq> [] \<and> (\<forall>c\<in>set ctx. \<not> isspace c) \<and> base \<in> set ''ACGT''"
  shows "load_loop t (concat (map save_line rs)) =
         foldl (\<lambda>t (ctx, base, n). store t ctx (set_slot (entry t ctx) (index base) n)) t rs"
  using assms
proof (induction rs arbitrary: t)
  case Nil
  show ?case by (simp add: load_loop_Nil)
next
  case (Cons r rs)
  obtain ctx base n where r: "r = (ctx, base, n)" by (cases r)
  with Cons.prems have ok: "ctx \<noteq> []" "\<forall>c\<in>set ctx. \<not> isspace c" "base \<in> set ''ACGT''"
    by simp_all
  from Cons.prems have rest:
    "\<forall>(ctx, base, n)\<in>set rs. ctx \<noteq> [] \<and> (\<forall>c\<in>set ctx. \<not> isspace c) \<and> base \<in> set ''ACGT''"
    by simp
  have "load_loop t (concat (map save_line (r # rs))) =
        load_loop (store t ctx (set_slot (entry t ctx) (index base) n)) (concat (map save_line rs))"
    using load_loop_line [OF ok, of t n "concat (map save_line rs)"] r by simp
  also have "\<dots> = foldl (\<lambda>t (ctx, base, n). store t ctx (set_slot (entry t ctx) (index base) n))
        (store t ctx (set_slot (entry t ctx) (index base) n)) rs"
    by (rule Cons.IH [OF rest])
  finally show ?case by (simp add: r)
qed


subsection \<open>The table that comes back\<close>

lemma entry_records_of:
  "entry (foldl (\<lambda>t (ctx, base, n). store t ctx (set_slot (entry t ctx) (index base) n)) L
            (records_of k arr)) ctx =
     (if ctx = k
      then Counts (if 0 < c0 arr then c0 arr else c0 (entry L k))
                  (if 0 < c1 arr then c1 arr else c1 (entry L k))
                  (if 0 < c2 arr then c2 arr else c2 (entry L k))
                  (if 0 < c3 arr then c3 arr else c3 (entry L k))
      else entry L ctx)"
  by (cases "entry L k")
    (simp add: records_of_def entry_store set_slot_def slot_def base_from_index_def index_def)

lemma overlay_zero:
  "Counts (if 0 < c0 arr then c0 arr else c0 zero_counts)
          (if 0 < c1 arr then c1 arr else c1 zero_counts)
          (if 0 < c2 arr then c2 arr else c2 zero_counts)
          (if 0 < c3 arr then c3 arr else c3 zero_counts) = arr"
  by (cases arr) (simp add: zero_counts_def word_gt_0)

lemma save_records_Cons: "save_records ((k, arr) # t) = records_of k arr @ save_records t"
  by (simp add: save_records_def)

lemma entry_save_records:
  assumes "distinct (map fst t)" "\<forall>k\<in>fst ` set t. entry L k = zero_counts"
  shows "entry (foldl (\<lambda>t (ctx, base, n). store t ctx (set_slot (entry t ctx) (index base) n)) L
            (save_records t)) ctx =
         (case map_of t ctx of Some arr \<Rightarrow> arr | None \<Rightarrow> entry L ctx)"
  using assms
proof (induction t arbitrary: L)
  case Nil
  show ?case by (simp add: save_records_def)
next
  case (Cons p t)
  obtain k arr where p: "p = (k, arr)" by (cases p)
  let ?assign = "\<lambda>t (ctx, base, n). store t ctx (set_slot (entry t ctx) (index base) n)"
  let ?L = "foldl ?assign L (records_of k arr)"
  from Cons.prems(1) p have fresh: "k \<notin> fst ` set t" and dist: "distinct (map fst t)"
    by simp_all
  from Cons.prems(2) p have zk: "entry L k = zero_counts"
    and zt: "\<forall>k'\<in>fst ` set t. entry L k' = zero_counts"
    by simp_all
  have Lk: "entry ?L k = arr"
    by (simp only: entry_records_of simp_thms if_True zk overlay_zero)
  have Lo: "entry ?L c = entry L c" if "c \<noteq> k" for c
    using that by (simp add: entry_records_of)
  have "\<forall>k'\<in>fst ` set t. entry ?L k' = zero_counts"
  proof
    fix k' assume k': "k' \<in> fst ` set t"
    with fresh have "k' \<noteq> k" by blast
    then have "entry ?L k' = entry L k'" by (rule Lo)
    moreover from zt k' have "entry L k' = zero_counts" by blast
    ultimately show "entry ?L k' = zero_counts" by (simp only:)
  qed
  from Cons.IH [OF dist this]
  have IH: "entry (foldl ?assign ?L (save_records t)) ctx =
            (case map_of t ctx of Some arr \<Rightarrow> arr | None \<Rightarrow> entry ?L ctx)" .
  have unfold: "foldl ?assign L (save_records (p # t)) = foldl ?assign ?L (save_records t)"
    by (simp only: p save_records_Cons foldl_append)
  show ?case
  proof (cases "ctx = k")
    case True
    from fresh have "map_of t k = None"
      by (simp add: map_of_eq_None_iff)
    with True IH Lk unfold show ?thesis by (simp add: p)
  next
    case False
    with IH Lo [OF False] unfold show ?thesis by (simp add: p split: option.splits)
  qed
qed

lemma entry_empty: "entry [] ctx = zero_counts"
  by (simp add: entry_def find_ctx_def)

lemma save_records_tokens:
  assumes "\<forall>k\<in>fst ` set t. k \<noteq> [] \<and> (\<forall>c\<in>set k. \<not> isspace c)"
  shows "\<forall>(ctx, base, n)\<in>set (save_records t).
           ctx \<noteq> [] \<and> (\<forall>c\<in>set ctx. \<not> isspace c) \<and> base \<in> set ''ACGT''"
proof (clarify, intro conjI ballI)
  fix ctx base n
  assume r: "(ctx, base, n) \<in> set (save_records t)"
  from save_records_sound [OF r] obtain arr where a: "(ctx, arr) \<in> set t" "base \<in> set ''ACGT''"
    by blast
  from a(1) have "ctx \<in> fst ` set t" by force
  with assms show "ctx \<noteq> []" and "\<And>c. c \<in> set ctx \<Longrightarrow> \<not> isspace c" by blast+
  from a(2) show "base \<in> set ''ACGT''" .
qed

lemma entry_load_save:
  assumes "distinct (map fst t)" "\<forall>k\<in>fst ` set t. k \<noteq> [] \<and> (\<forall>c\<in>set k. \<not> isspace c)"
  shows "entry (load [] (Some (save t))) ctx = entry t ctx"
proof -
  have "load [] (Some (save t)) =
        foldl (\<lambda>t (ctx, base, n). store t ctx (set_slot (entry t ctx) (index base) n)) []
          (save_records t)"
    unfolding load_def save_def option.case
    by (rule load_loop_records [OF save_records_tokens [OF assms(2)]])
  moreover have "\<forall>k\<in>fst ` set t. entry [] k = zero_counts"
    by (simp add: entry_empty)
  ultimately have "entry (load [] (Some (save t))) ctx =
      (case map_of t ctx of Some arr \<Rightarrow> arr | None \<Rightarrow> entry [] ctx)"
    using entry_save_records [OF assms(1), of "[]" ctx] by simp
  then show ?thesis
    by (simp add: entry_def find_ctx_def split: option.splits)
qed

lemma predict_entry: "predict t ctx = base_from_index (predict_loop (entry t ctx) 0 0 (- 1))"
proof (cases "find_ctx t ctx")
  case None
  have "predict_loop zero_counts 0 0 (- 1) = - 1"
    by (rule predict_loop_all_zero) (simp_all add: zero_counts_def)
  with None show ?thesis
    by (simp add: predict_def entry_def base_from_index_def)
next
  case (Some arr)
  then show ?thesis by (simp add: predict_def entry_def)
qed

subsection \<open>The tables that a run reaches\<close>

lemma distinct_store: "distinct (map fst t) \<Longrightarrow> distinct (map fst (store t k arr))"
  by (simp add: store_def distinct_update)

lemma distinct_update_model: "distinct (map fst t) \<Longrightarrow> distinct (map fst (update t ctx b))"
  by (simp add: update_def Let_def distinct_store)

lemma read_string_is_token:
  assumes "read_string s = Some (tok, rest)"
  shows "tok \<noteq> [] \<and> (\<forall>c\<in>set tok. \<not> isspace c)"
proof -
  from assms have "tok = takeWhile (\<lambda>c. \<not> isspace c) (skipws s)" "tok \<noteq> []"
    by (auto simp add: read_string_def Let_def split: if_splits)
  then show ?thesis
    by (auto dest: set_takeWhileD)
qed

lemma load_loop_keeps:
  assumes "distinct (map fst t)" "\<forall>k\<in>fst ` set t. k \<noteq> [] \<and> (\<forall>c\<in>set k. \<not> isspace c)"
  shows "distinct (map fst (load_loop t inp)) \<and>
         (\<forall>k\<in>fst ` set (load_loop t inp). k \<noteq> [] \<and> (\<forall>c\<in>set k. \<not> isspace c))"
  using assms
proof (induction t inp rule: load_loop.induct)
  case (1 t inp)
  show ?case
  proof (cases "read_string inp")
    case None
    with "1.prems" show ?thesis by (subst (1 2) load_loop.simps) simp
  next
    case rs: (Some a)
    obtain ctx inp1 where a: "a = (ctx, inp1)" by (cases a)
    from read_string_is_token [of inp ctx inp1] rs a
    have tok: "ctx \<noteq> [] \<and> (\<forall>c\<in>set ctx. \<not> isspace c)" by simp
    show ?thesis
    proof (cases "read_char inp1")
      case None
      with rs a "1.prems" show ?thesis by (subst (1 2) load_loop.simps) simp
    next
      case rc: (Some b)
      obtain base inp2 where b: "b = (base, inp2)" by (cases b)
      show ?thesis
      proof (cases "read_size_t inp2")
        case None
        with rs a rc b "1.prems" show ?thesis by (subst (1 2) load_loop.simps) simp
      next
        case rn: (Some c)
        obtain n inp3 where c: "c = (n, inp3)" by (cases c)
        show ?thesis
        proof (cases "index base \<ge> 0")
          case True
          let ?t = "store t ctx (set_slot (entry t ctx) (index base) n)"
          have d: "distinct (map fst ?t)"
            using "1.prems"(1) by (rule distinct_store)
          have k: "\<forall>k\<in>fst ` set ?t. k \<noteq> [] \<and> (\<forall>c\<in>set k. \<not> isspace c)"
            using "1.prems"(2) tok by (simp only: keys_store) blast
          have "distinct (map fst (load_loop ?t inp3)) \<and>
             (\<forall>k\<in>fst ` set (load_loop ?t inp3). k \<noteq> [] \<and> (\<forall>c\<in>set k. \<not> isspace c))"
            using "1.IH"(1) [OF rs a [symmetric] rc b [symmetric] rn c [symmetric] refl True d k] .
          moreover have "load_loop t inp = load_loop ?t inp3"
            using rs a rc b rn c True by (subst load_loop.simps) simp
          ultimately show ?thesis by presburger
        next
          case False
          have "distinct (map fst (load_loop t inp3)) \<and>
             (\<forall>k\<in>fst ` set (load_loop t inp3). k \<noteq> [] \<and> (\<forall>c\<in>set k. \<not> isspace c))"
            using "1.IH"(2) [OF rs a [symmetric] rc b [symmetric] rn c [symmetric] refl False "1.prems"] .
          moreover have "load_loop t inp = load_loop t inp3"
            using rs a rc b rn c False by (subst load_loop.simps) simp
          ultimately show ?thesis by presburger
        qed
      qed
    qed
  qed
qed

lemma load_keeps:
  "distinct (map fst (load [] file)) \<and>
   (\<forall>k\<in>fst ` set (load [] file). k \<noteq> [] \<and> (\<forall>c\<in>set k. \<not> isspace c))"
proof (cases "file")
  case None
  then show ?thesis by (simp add: load_def)
next
  case (Some inp)
  have "distinct (map fst ([] :: table))"
    and "\<forall>k\<in>fst ` set ([] :: table). k \<noteq> [] \<and> (\<forall>c\<in>set k. \<not> isspace c)"
    by simp_all
  note keeps = load_loop_keeps [OF this, of inp]
  have "load [] file = load_loop [] inp"
    using Some by (simp add: load_def)
  with keeps show ?thesis by presburger
qed

lemma predict_not_space: "\<not> isspace (predict t ctx)"
proof -
  have "predict t ctx \<in> set ''ACGTN''"
  proof (cases "find_ctx t ctx")
    case None
    then show ?thesis by (simp add: predict_def)
  next
    case (Some arr)
    have "base_from_index i \<in> set ''ACGTN''" for i
    proof (cases "0 \<le> i \<and> i < 4")
      case True
      then have "i = 0 \<or> i = 1 \<or> i = 2 \<or> i = 3" by auto
      then show ?thesis by (auto simp add: base_from_index_def)
    next
      case False
      then show ?thesis by (auto simp add: base_from_index_def)
    qed
    with Some show ?thesis by (simp only: predict_def option.case)
  qed
  then show ?thesis by (auto simp add: isspace_def)
qed

lemma impute_step_fst_values:
  "fst (impute_step i s m) = s \<or>
   fst (impute_step i s m) = s[i := predict m [s ! (i - 2), s ! (i - 1)]] \<or>
   fst (impute_step i s m) = s[i := CHR ''T'']"
  by (simp add: impute_step_def Let_def split_def)

lemma impute_step_keeps:
  assumes "i < length s" "\<forall>c\<in>set s. \<not> isspace c" "distinct (map fst m)"
    "\<forall>k\<in>fst ` set m. k \<noteq> [] \<and> (\<forall>c\<in>set k. \<not> isspace c)"
  shows "(\<forall>c\<in>set (fst (impute_step i s m)). \<not> isspace c) \<and>
         distinct (map fst (snd (impute_step i s m))) \<and>
         (\<forall>k\<in>fst ` set (snd (impute_step i s m)). k \<noteq> [] \<and> (\<forall>c\<in>set k. \<not> isspace c))"
proof -
  let ?ctx = "[s ! (i - 2), s ! (i - 1)]"
  have T: "\<not> isspace (CHR ''T'')" by (simp add: isspace_def)
  have upd: "\<forall>c\<in>set (s[i := b]). \<not> isspace c" if "\<not> isspace b" for b
  proof
    fix c assume "c \<in> set (s[i := b])"
    then have "c \<in> insert b (set s)"
      using set_update_subset_insert [of s i b] by blast
    with assms(2) that show "\<not> isspace c" by blast
  qed
  have 1: "\<forall>c\<in>set (fst (impute_step i s m)). \<not> isspace c"
    using impute_step_fst_values [of i s m] assms(2) upd [OF T]
      upd [OF predict_not_space [of m ?ctx]]
    by presburger
  from assms(1) have "i - 2 < length s" "i - 1 < length s" by simp_all
  with assms(2) have ctx: "?ctx \<noteq> [] \<and> (\<forall>c\<in>set ?ctx. \<not> isspace c)"
    by simp
  obtain b where m': "snd (impute_step i s m) = update m ?ctx b"
    by (simp add: impute_step_def Let_def split_def)
  have 2: "distinct (map fst (update m ?ctx b))"
    using assms(3) by (rule distinct_update_model)
  have 3: "\<forall>k\<in>fst ` set (update m ?ctx b). k \<noteq> [] \<and> (\<forall>c\<in>set k. \<not> isspace c)"
  proof
    fix k assume "k \<in> fst ` set (update m ?ctx b)"
    with keys_update [of m ?ctx b] have "k = ?ctx \<or> k \<in> fst ` set m" by blast
    with assms(4) ctx show "k \<noteq> [] \<and> (\<forall>c\<in>set k. \<not> isspace c)" by blast
  qed
  from 1 2 3 show ?thesis by (simp only: m')
qed


lemma impute_loop_keeps:
  assumes "\<forall>c\<in>set s. \<not> isspace c" "distinct (map fst m)"
    "\<forall>k\<in>fst ` set m. k \<noteq> [] \<and> (\<forall>c\<in>set k. \<not> isspace c)"
  shows "distinct (map fst (snd (impute_loop i s m))) \<and>
         (\<forall>k\<in>fst ` set (snd (impute_loop i s m)). k \<noteq> [] \<and> (\<forall>c\<in>set k. \<not> isspace c))"
  using assms
proof (induction i s m rule: impute_loop.induct)
  case (1 i s m)
  show ?case
  proof (cases "i < length s")
    case True
    obtain s' m' where st: "impute_step i s m = (s', m')" by (cases "impute_step i s m")
    from impute_step_keeps [OF True "1.prems"] st
    have k: "\<forall>c\<in>set s'. \<not> isspace c" "distinct (map fst m')"
      "\<forall>k\<in>fst ` set m'. k \<noteq> [] \<and> (\<forall>c\<in>set k. \<not> isspace c)"
      by simp_all
    have eq: "impute_loop i s m = impute_loop (i + 1) s' m'"
      using True st by (subst impute_loop.simps) simp
    show ?thesis
      unfolding eq by (rule "1.IH" [OF True st [symmetric] k])
  next
    case False
    then have eq: "impute_loop i s m = (s, m)"
      by (subst impute_loop.simps) simp
    from "1.prems"(2,3) show ?thesis
      unfolding eq snd_conv by (rule conjI)
  qed
qed

lemma impute_keeps:
  assumes "\<forall>c\<in>set raw. \<not> isspace c" "distinct (map fst m)"
    "\<forall>k\<in>fst ` set m. k \<noteq> [] \<and> (\<forall>c\<in>set k. \<not> isspace c)"
  shows "distinct (map fst (snd (impute m raw))) \<and>
         (\<forall>k\<in>fst ` set (snd (impute m raw)). k \<noteq> [] \<and> (\<forall>c\<in>set k. \<not> isspace c))"
proof (cases "2 \<le> length raw")
  case True
  then have eq: "impute m raw = impute_loop 2 raw m" by (simp add: impute_def)
  show ?thesis unfolding eq by (rule impute_loop_keeps [OF assms])
next
  case False
  then have eq: "impute m raw = (raw, m)" by (simp add: impute_def)
  from assms(2,3) show ?thesis unfolding eq snd_conv by (rule conjI)
qed

lemma save_AC: "save [(''AC'', Counts 0 7 0 120)] = ''AC C 7'' @ [CHR 0x0A] @ ''AC T 120'' @ [CHR 0x0A]"
  by code_simp

lemma predict_AC: "predict [(''AC'', Counts 0 7 0 120)] ''AC'' = CHR ''T''"
  by code_simp

lemma update_A_space: "update [] ''A '' (CHR ''A'') = [(''A '', Counts 1 0 0 0)]"
  by code_simp

lemma save_A_space: "save [(''A '', Counts 1 0 0 0)] = ''A  A 1'' @ [CHR 0x0A]"
  by code_simp

lemma load_A_space: "load [] (Some (''A  A 1'' @ [CHR 0x0A])) = [(''A'', Counts 1 0 0 0)]"
  by code_simp

text \<open>
  C5, as the code has it. Take a model whose contexts are non-empty and hold no white
  space (its keys are distinct, as in any hash table). The file that \<open>save\<close> writes,
  loaded into a fresh model, gives the same \<open>predict\<close> result as the original model,
  for every context.
\<close>

theorem save_load_predict:
  assumes "distinct (map fst t)"
    and "\<forall>k\<in>fst ` set t. k \<noteq> [] \<and> (\<forall>c\<in>set k. \<not> isspace c)"
  shows "predict (load [] (Some (save t))) ctx = predict t ctx"
  by (simp only: predict_entry entry_load_save [OF assms])

theorem save_load_predict_witness:
  "predict (load [] (Some (''AC C 7'' @ [CHR 0x0A] @ ''AC T 120'' @ [CHR 0x0A]))) ''AC'' = CHR ''T''"
proof -
  have "distinct (map fst [(''AC'', Counts 0 7 0 120)])" by simp
  moreover have "\<forall>k\<in>fst ` set [(''AC'', Counts 0 7 0 120)]. k \<noteq> [] \<and> (\<forall>c\<in>set k. \<not> isspace c)"
    by (simp add: isspace_def)
  ultimately have "predict (load [] (Some (save [(''AC'', Counts 0 7 0 120)]))) ''AC'' =
      predict [(''AC'', Counts 0 7 0 120)] ''AC''"
    by (rule save_load_predict)
  then show ?thesis by (simp only: save_AC predict_AC)
qed

text \<open>
  C5 as stated fails for a context with white space in it, which \<open>update\<close> accepts:
  after \<open>update("A ", 'A')\<close> the model predicts A for the context \<open>"A "\<close>; \<open>save\<close> writes
  the line \<open>A  A 1\<close>, which \<open>load\<close> reads back as a record of the context \<open>"A"\<close>, and the
  loaded model predicts N for \<open>"A "\<close>.
\<close>

theorem save_load_loses_context:
  "save (update [] ''A '' (CHR ''A'')) = ''A  A 1'' @ [CHR 0x0A] \<and>
   load [] (Some (save (update [] ''A '' (CHR ''A'')))) = [(''A'', Counts 1 0 0 0)] \<and>
   predict (update [] ''A '' (CHR ''A'')) ''A '' = CHR ''A'' \<and>
   predict (load [] (Some (save (update [] ''A '' (CHR ''A''))))) ''A '' = CHR ''N''"
proof -
  have "predict [(''A '', Counts 1 0 0 0)] ''A '' = CHR ''A''" by code_simp
  moreover have "predict [(''A'', Counts 1 0 0 0)] ''A '' = CHR ''N''" by code_simp
  ultimately show ?thesis
    by (simp only: update_A_space save_A_space load_A_space simp_thms)
qed

text \<open>
  The models of a run of \<open>main\<close> are within the amended C5: a model loaded from any file
  (or from none) and then run over residues without white space, as the normalised
  residues are, is read back by \<open>load\<close> from what \<open>save\<close> writes with the same predictions.
\<close>

lemma run_save_load_predict:
  assumes "\<forall>c\<in>set raw. \<not> isspace c"
  shows "predict (load [] (Some (save (snd (impute (load [] file) raw))))) ctx =
         predict (snd (impute (load [] file) raw)) ctx"
proof -
  from load_keeps [of "file"]
  have "distinct (map fst (load [] file))"
    and "\<forall>k\<in>fst ` set (load [] file). k \<noteq> [] \<and> (\<forall>c\<in>set k. \<not> isspace c)"
    by blast+
  from impute_keeps [OF assms this]
  have "distinct (map fst (snd (impute (load [] file) raw)))"
    and "\<forall>k\<in>fst ` set (snd (impute (load [] file) raw)). k \<noteq> [] \<and> (\<forall>c\<in>set k. \<not> isspace c)"
    by blast+
  then show ?thesis
    by (simp only: predict_entry entry_load_save)
qed

end
